theory Spec2Isabelle
  imports Main "HOL-Library.AList"
begin

section \<open>JavaScript values used by the cache manager\<close>

text \<open>
  Strings are modelled as \<open>string\<close>.  Every character class the program tests is
  ASCII, so the difference between UTF-16 code units and bytes does not show in the
  tokeniser; it only shows in the text of lines that are copied through unchanged.
\<close>

datatype js_error = TypeError | SyntaxError | IOError

text \<open>
  A property read \<open>obj[key]\<close> on a plain object: the object's own property, a property
  inherited from \<open>Object.prototype\<close> (a function or the prototype object itself: truthy,
  neither an array nor iterable), or \<open>undefined\<close>.  An object is an association list in
  insertion order, which is the order of \<open>Object.keys\<close> for keys that are not
  array indices.
\<close>

datatype 'a js_prop = Own 'a | Inherited | Undefined

definition object_prototype_keys :: "string list" where
  "object_prototype_keys =
     [''constructor'', ''__defineGetter__'', ''__defineSetter__'', ''hasOwnProperty'',
      ''__lookupGetter__'', ''__lookupSetter__'', ''isPrototypeOf'',
      ''propertyIsEnumerable'', ''toString'', ''valueOf'', ''__proto__'',
      ''toLocaleString'']"

definition js_get :: "(string \<times> 'a) list \<Rightarrow> string \<Rightarrow> 'a js_prop" where
  "js_get obj k =
     (case map_of obj k of
        Some v \<Rightarrow> Own v
      | None \<Rightarrow> if k \<in> set object_prototype_keys then Inherited else Undefined)"

text \<open>A \<open>for\<close> loop whose body may throw: the first exception ends the loop.\<close>

fun for_each :: "('a \<Rightarrow> 's \<Rightarrow> 'e + 's) \<Rightarrow> 'a list \<Rightarrow> 's \<Rightarrow> 'e + 's" where
  "for_each f [] s = Inr s"
| "for_each f (x # xs) s =
     (case f x s of Inl e \<Rightarrow> Inl e | Inr s' \<Rightarrow> for_each f xs s')"

subsection \<open>Characters and strings\<close>

definition lower_letters :: string where
  "lower_letters = ''abcdefghijklmnopqrstuvwxyz''"

definition upper_letters :: string where
  "upper_letters = ''ABCDEFGHIJKLMNOPQRSTUVWXYZ''"

definition digits :: string where
  "digits = ''0123456789''"

definition is_upper :: "char \<Rightarrow> bool" where
  "is_upper c = (c \<in> set upper_letters)"

text \<open>\<open>[a-zA-Z_$]\<close> and \<open>[a-zA-Z0-9_$]\<close>.\<close>

definition is_ident_start :: "char \<Rightarrow> bool" where
  "is_ident_start c = (c \<in> set lower_letters \<or> c \<in> set upper_letters \<or> c = CHR ''_'' \<or> c = CHR ''$'')"

definition is_ident_char :: "char \<Rightarrow> bool" where
  "is_ident_char c = (is_ident_start c \<or> c \<in> set digits)"

definition to_lower :: "char \<Rightarrow> char" where
  "to_lower c = (case map_of (zip upper_letters lower_letters) c of Some l \<Rightarrow> l | None \<Rightarrow> c)"

definition toLowerCase :: "string \<Rightarrow> string" where
  "toLowerCase s = map to_lower s"

text \<open>\<open>s.split(sep)\<close> for a one-character separator: never the empty list.\<close>

fun split_on :: "char \<Rightarrow> string \<Rightarrow> string list" where
  "split_on sep [] = [[]]"
| "split_on sep (c # cs) =
     (if c = sep then [] # split_on sep cs
      else (case split_on sep cs of [] \<Rightarrow> [[c]] | l # ls \<Rightarrow> (c # l) # ls))"

text \<open>
  \<open>term.split(/(?=[A-Z])/)\<close>: a cut before every upper-case letter except the first
  character (an empty match at the start of the string does not split).
\<close>

fun split_camel :: "string \<Rightarrow> string list" where
  "split_camel [] = [[]]"
| "split_camel [c] = [[c]]"
| "split_camel (c # d # cs) =
     (if is_upper d then [c] # split_camel (d # cs)
      else (case split_camel (d # cs) of [] \<Rightarrow> [[c]] | l # ls \<Rightarrow> (c # l) # ls))"

text \<open>\<open>line.match(/[a-zA-Z_$][a-zA-Z0-9_$]*/g) || []\<close>: the greedy matches, left to right.\<close>

function identifiers :: "string \<Rightarrow> string list" where
  "identifiers [] = []"
| "identifiers (c # cs) =
     (if is_ident_start c
      then (c # takeWhile is_ident_char cs) # identifiers (dropWhile is_ident_char cs)
      else identifiers cs)"
  by pat_completeness auto
termination
  by (relation "measure length") (auto simp: less_Suc_eq_le length_dropWhile_le)

text \<open>\<open>s.includes(p)\<close>.\<close>

definition starts_with :: "string \<Rightarrow> string \<Rightarrow> bool" where
  "starts_with s p = (take (length p) s = p)"

fun includes_str :: "string \<Rightarrow> string \<Rightarrow> bool" where
  "includes_str [] p = (p = [])"
| "includes_str (c # cs) p = (starts_with (c # cs) p \<or> includes_str cs p)"

definition ends_with :: "string \<Rightarrow> string \<Rightarrow> bool" where
  "ends_with s p = (length p \<le> length s \<and> drop (length s - length p) s = p)"

section \<open>The cache documents\<close>

text \<open>
  \<open>FileStructure.files\<close>, in the order of \<open>Object.entries\<close>.  Of a file's entry only
  \<open>size\<close> is read by the functions below; \<open>lastModified\<close>, \<open>language\<close> and the
  directory map are left out.
\<close>

record file_info =
  fi_size :: nat

record FileStructure =
  fs_files :: "(string \<times> file_info) list"

record posting =
  p_file :: string
  p_occurrences :: nat
  p_positions :: "nat list"

type_synonym postings_index = "(string \<times> posting list) list"

record SearchIndex =
  exactTerms :: postings_index
  terms :: postings_index

text \<open>
  \<open>RepoMetadata\<close>: the commit hash and, of the statistics, the two sums; the language
  counts, the scan date and \<open>packageInfo\<close> are read by no function below.
\<close>

record RepoMetadata =
  lastCommitHash :: string
  totalFiles :: nat
  totalSize :: nat

text \<open>\<open>RepoCache\<close> without the code-structure index, which no search reads.\<close>

record RepoCache =
  rc_metadata :: RepoMetadata
  rc_structure :: FileStructure
  rc_searchIndex :: SearchIndex

text \<open>The search results (interfaces \<open>SearchResult\<close> and \<open>SearchMatch\<close>).\<close>

record context_line =
  c_line :: nat
  c_text :: string
  c_isMatch :: bool

record SearchMatch =
  m_line :: nat
  m_content :: string
  m_context :: "context_line list"

record SearchResult =
  r_category :: string
  r_repo :: string
  r_file :: string
  r_matches :: "SearchMatch list"

section \<open>The environment: file system, git, registry, regular expressions\<close>

text \<open>
  A stored JSON document: absent, present but unusable (it cannot be read, or is not
  JSON, or is \<open>null\<close>), or parsed.  The documents are written by \<open>saveRepoCache\<close>
  only; JSON of another shape is not modelled.
\<close>

datatype 'a document = Absent | Unusable | Parsed 'a

text \<open>
  Files are addressed by (category, repository, relative path) instead of the joined
  path string.  \<open>globby\<close> and \<open>RegExp\<close> are libraries outside the repository: their
  answers are part of the environment.  \<open>js_regexp src ignoreCase\<close> is
  \<open>new RegExp(src, ignoreCase ? 'i' : '')\<close>: \<open>None\<close> when the constructor throws, else the
  \<open>test\<close> function.  The registry lists, per category, the repository names (the
  keys of the category's object; the url and description are not read).
  \<open>readdir_ok\<close> says whether every \<open>readdir\<close> and \<open>stat\<close> of the directory pass of
  \<open>scanFileStructure\<close> succeeds, and \<open>cache_writable\<close> whether the cache directory
  can be created and written.  \<open>globby E c r pat\<close> is
  \<open>globby([pat], {cwd: repoPath, gitignore: true, dot: false})\<close>, with \<open>onlyFiles\<close> at
  its default \<open>true\<close>, which \<open>scanFileStructure\<close> spells out.  The environment does not
  change while one search runs.
\<close>

record env =
  registry :: "(string \<times> string list) list"
  path_exists :: "string \<Rightarrow> string \<Rightarrow> bool"
  read_file :: "string \<Rightarrow> string \<Rightarrow> string \<Rightarrow> string option"
  stat_size :: "string \<Rightarrow> string \<Rightarrow> string \<Rightarrow> nat option"
  readdir_ok :: "string \<Rightarrow> string \<Rightarrow> bool"
  globby :: "string \<Rightarrow> string \<Rightarrow> string \<Rightarrow> js_error + string list"
  revparse_HEAD :: "string \<Rightarrow> string \<Rightarrow> js_error + string"
  metadata_doc :: "string \<Rightarrow> string \<Rightarrow> RepoMetadata document"
  searchIndex_doc :: "string \<Rightarrow> string \<Rightarrow> SearchIndex document"
  cache_writable :: "string \<Rightarrow> string \<Rightarrow> bool"
  js_regexp :: "string \<Rightarrow> bool \<Rightarrow> (string \<Rightarrow> bool) option"

section \<open>buildSearchIndex\<close>

definition allowed_extensions :: "string list" where
  "allowed_extensions =
     [''js'', ''jsx'', ''ts'', ''tsx'', ''java'', ''kt'', ''swift'', ''c'', ''cpp'', ''h'',
      ''py'', ''rb'', ''go'', ''rs'', ''php'', ''html'', ''css'', ''md'', ''json'', ''yml'',
      ''yaml'', ''xml'', ''sh'']"

text \<open>\<open>/\.(js|jsx|...|sh)$/i.test(file)\<close>.\<close>

definition allowed_extension :: "string \<Rightarrow> bool" where
  "allowed_extension file =
     list_ex (\<lambda>ext. ends_with (toLowerCase file) (CHR ''.'' # ext)) allowed_extensions"

definition stop_words :: "string list" where
  "stop_words =
     [''the'', ''and'', ''for'', ''function'', ''var'', ''let'', ''const'', ''if'', ''else'',
      ''while'', ''return'', ''this'', ''new'', ''try'', ''catch'', ''class'', ''import'',
      ''export'']"

text \<open>\<open>term.length < 3 || /^(the|and|...)$/i.test(term)\<close>.\<close>

definition skipped_term :: "string \<Rightarrow> bool" where
  "skipped_term t = (length t < 3 \<or> toLowerCase t \<in> set stop_words)"

text \<open>\<open>[...subTerms, ...snakeTerms]\<close>.\<close>

definition allTerms :: "string \<Rightarrow> string list" where
  "allTerms t =
     filter (\<lambda>s. length s > 2) (split_camel t) @ filter (\<lambda>s. length s > 2) (split_on (CHR ''_'') t)"

text \<open>\<open>xs.find(pred)\<close> followed by an update of the entry found, in place.\<close>

fun update_found :: "('a \<Rightarrow> bool) \<Rightarrow> ('a \<Rightarrow> 'a) \<Rightarrow> 'a list \<Rightarrow> 'a list" where
  "update_found pred f [] = []"
| "update_found pred f (x # xs) = (if pred x then f x # xs else x # update_found pred f xs)"

text \<open>\<open>if (!obj[key]) obj[key] = []\<close>: an inherited property is truthy and stays.\<close>

definition ensure_key :: "postings_index \<Rightarrow> string \<Rightarrow> postings_index" where
  "ensure_key obj k = (case js_get obj k of Undefined \<Rightarrow> obj @ [(k, [])] | _ \<Rightarrow> obj)"

text \<open>
  The state of the loop over one file: the index built so far and the set
  \<open>processedTerms\<close> (keys \<open>term:file\<close>).  An exception carries the index as it was
  when thrown, since the index is updated in place.
\<close>

type_synonym index_state = "SearchIndex \<times> string list"

definition termFileKey :: "string \<Rightarrow> string \<Rightarrow> string" where
  "termFileKey t file = t @ '':'' @ file"

definition add_exact :: "string \<Rightarrow> nat \<Rightarrow> string \<Rightarrow> index_state \<Rightarrow> (js_error \<times> SearchIndex) + index_state" where
  "add_exact file ln t st =
     (let idx = fst st; processedTerms = snd st;
          ex = ensure_key (exactTerms idx) t
      in case js_get ex t of
           Own ps \<Rightarrow>
             if termFileKey t file \<notin> set processedTerms
             then Inr (idx\<lparr>exactTerms :=
                          AList.update t (ps @ [\<lparr>p_file = file, p_occurrences = 1, p_positions = [ln]\<rparr>]) ex\<rparr>,
                       termFileKey t file # processedTerms)
             else Inr (idx\<lparr>exactTerms :=
                          AList.update t
                            (update_found (\<lambda>e. p_file e = file)
                               (\<lambda>e. e\<lparr>p_occurrences := p_occurrences e + 1,
                                       p_positions := p_positions e @ [ln]\<rparr>) ps) ex\<rparr>,
                       processedTerms)
         | _ \<Rightarrow> Inl (TypeError, idx\<lparr>exactTerms := ex\<rparr>))"

definition add_term :: "string \<Rightarrow> nat \<Rightarrow> string \<Rightarrow> index_state \<Rightarrow> (js_error \<times> SearchIndex) + index_state" where
  "add_term file ln subTerm st =
     (let idx = fst st; k = toLowerCase subTerm;
          tm = ensure_key (terms idx) k
      in case js_get tm k of
           Own ps \<Rightarrow>
             if list_ex (\<lambda>e. p_file e = file) ps
             then Inr (idx\<lparr>terms :=
                          AList.update k
                            (update_found (\<lambda>e. p_file e = file)
                               (\<lambda>e. e\<lparr>p_occurrences := p_occurrences e + 1,
                                       p_positions := (if ln \<in> set (p_positions e) then p_positions e
                                                       else p_positions e @ [ln])\<rparr>) ps) tm\<rparr>,
                       snd st)
             else Inr (idx\<lparr>terms :=
                          AList.update k (ps @ [\<lparr>p_file = file, p_occurrences = 1, p_positions = [ln]\<rparr>]) tm\<rparr>,
                       snd st)
         | _ \<Rightarrow> Inl (TypeError, idx\<lparr>terms := tm\<rparr>))"

text \<open>The body of \<open>for (const term of identifiers)\<close>; \<open>ln\<close> is \<open>i + 1\<close>.\<close>

definition index_identifier :: "string \<Rightarrow> nat \<Rightarrow> string \<Rightarrow> index_state \<Rightarrow> (js_error \<times> SearchIndex) + index_state" where
  "index_identifier file ln t st =
     (if skipped_term t then Inr st
      else case add_exact file ln t st of
             Inl e \<Rightarrow> Inl e
           | Inr st' \<Rightarrow> for_each (add_term file ln) (allTerms t) st')"

definition index_line :: "string \<Rightarrow> nat \<times> string \<Rightarrow> index_state \<Rightarrow> (js_error \<times> SearchIndex) + index_state" where
  "index_line file il st = for_each (index_identifier file (fst il + 1)) (identifiers (snd il)) st"

definition index_content :: "string \<Rightarrow> string \<Rightarrow> SearchIndex \<Rightarrow> (js_error \<times> SearchIndex) + index_state" where
  "index_content file content idx =
     for_each (index_line file) (enumerate 0 (split_on (CHR ''\<newline>'') content)) (idx, [])"

text \<open>
  The body of the loop over \<open>Object.entries(structure.files)\<close>.  A file that cannot be
  read, or whose indexing throws, is logged and skipped; what was added to the index
  before the exception stays.
\<close>

definition index_file :: "env \<Rightarrow> string \<Rightarrow> string \<Rightarrow> string \<times> file_info \<Rightarrow> SearchIndex \<Rightarrow> SearchIndex" where
  "index_file E category repo entry idx =
     (if fi_size (snd entry) > 1024 * 1024 then idx
      else if \<not> allowed_extension (fst entry) then idx
      else case read_file E category repo (fst entry) of
             None \<Rightarrow> idx
           | Some content \<Rightarrow>
               (case index_content (fst entry) content idx of
                  Inl e \<Rightarrow> snd e
                | Inr st \<Rightarrow> fst st))"

definition buildSearchIndex :: "env \<Rightarrow> string \<Rightarrow> string \<Rightarrow> FileStructure \<Rightarrow> SearchIndex" where
  "buildSearchIndex E category repo structure =
     fold (index_file E category repo) (fs_files structure) \<lparr>exactTerms = [], terms = []\<rparr>"


section \<open>Cache validity, build and load\<close>

definition is_space :: "char \<Rightarrow> bool" where
  "is_space c = (c \<in> set [CHR '' '', CHR ''\<newline>'', CHR 0x09, CHR 0x0D, CHR 0x0B, CHR 0x0C])"

text \<open>\<open>s.trim()\<close>, for the ASCII white space.\<close>

definition trim :: "string \<Rightarrow> string" where
  "trim s = rev (dropWhile is_space (rev (dropWhile is_space s)))"

text \<open>
  \<open>isCacheValid\<close>: every exception (unreadable or malformed metadata, a missing working
  tree, a failing \<open>git rev-parse\<close>) is caught and gives \<open>false\<close>.
\<close>

definition isCacheValid :: "env \<Rightarrow> string \<Rightarrow> string \<Rightarrow> bool" where
  "isCacheValid E category repo =
     (case metadata_doc E category repo of
        Absent \<Rightarrow> False
      | Unusable \<Rightarrow> False
      | Parsed metadata \<Rightarrow>
          (case revparse_HEAD E category repo of
             Inl e \<Rightarrow> False
           | Inr currentHash \<Rightarrow> lastCommitHash metadata = trim currentHash))"

text \<open>\<open>loadRepoCachePart(category, repo, 'searchIndex')\<close>: \<open>None\<close> is \<open>null\<close>.\<close>

definition loadSearchIndex :: "env \<Rightarrow> string \<Rightarrow> string \<Rightarrow> SearchIndex option" where
  "loadSearchIndex E category repo =
     (case searchIndex_doc E category repo of Parsed idx \<Rightarrow> Some idx | _ \<Rightarrow> None)"

text \<open>
  \<open>scanFileStructure\<close>: the files of \<open>globby(['**/*'])\<close>, each with its \<open>stat\<close>; any
  failure ends the scan.  The entries keep the order of \<open>globby\<close>.  A file whose name is
  an array index (\<open>9\<close>, \<open>10\<close>), which \<open>Object.entries\<close> lists first, or \<open>__proto__\<close>, which
  the object does not keep, is not modelled; such a name has no extension of the
  allow-list.
\<close>

fun stat_files :: "env \<Rightarrow> string \<Rightarrow> string \<Rightarrow> string list \<Rightarrow> js_error + (string \<times> file_info) list" where
  "stat_files E category repo [] = Inr []"
| "stat_files E category repo (f # fs) =
     (case stat_size E category repo f of
        None \<Rightarrow> Inl IOError
      | Some n \<Rightarrow>
          (case stat_files E category repo fs of
             Inl e \<Rightarrow> Inl e
           | Inr entries \<Rightarrow> Inr ((f, \<lparr>fi_size = n\<rparr>) # entries)))"

definition scanFileStructure :: "env \<Rightarrow> string \<Rightarrow> string \<Rightarrow> js_error + FileStructure" where
  "scanFileStructure E category repo =
     (case globby E category repo ''**/*'' of
        Inl e \<Rightarrow> Inl e
      | Inr files \<Rightarrow>
          (case stat_files E category repo files of
             Inl e \<Rightarrow> Inl e
           | Inr entries \<Rightarrow>
               if readdir_ok E category repo then Inr \<lparr>fs_files = entries\<rparr> else Inl IOError))"

text \<open>
  \<open>getRepositoryMetadata\<close>: \<open>totalSize\<close> is the exact sum of the sizes; the rounding of
  JavaScript numbers above $2^{53}$ is not modelled.
\<close>

definition getRepositoryMetadata :: "env \<Rightarrow> string \<Rightarrow> string \<Rightarrow> FileStructure \<Rightarrow> js_error + RepoMetadata" where
  "getRepositoryMetadata E category repo structure =
     (case revparse_HEAD E category repo of
        Inl e \<Rightarrow> Inl e
      | Inr currentHash \<Rightarrow>
          Inr \<lparr>lastCommitHash = trim currentHash,
               totalFiles = length (fs_files structure),
               totalSize = sum_list (map (\<lambda>entry. fi_size (snd entry)) (fs_files structure))\<rparr>)"

text \<open>
  \<open>saveRepoCache\<close> writes the documents of one repository.  A failure is modelled only
  as a cache directory that cannot be written at all.
\<close>

definition saveRepoCache :: "env \<Rightarrow> string \<Rightarrow> string \<Rightarrow> RepoCache \<Rightarrow> js_error + env" where
  "saveRepoCache E category repo cache =
     (if \<not> cache_writable E category repo then Inl IOError
      else Inr (E\<lparr>metadata_doc :=
                     (\<lambda>c r. if c = category \<and> r = repo then Parsed (rc_metadata cache)
                             else metadata_doc E c r),
                   searchIndex_doc :=
                     (\<lambda>c r. if c = category \<and> r = repo then Parsed (rc_searchIndex cache)
                             else searchIndex_doc E c r)\<rparr>))"

text \<open>
  \<open>buildRepoCache\<close>: the environment afterwards and the cache, or \<open>null\<close>.
  \<open>analyzeCodeStructure\<close> is left out: it catches the errors of each file, and no
  function below reads its result.
\<close>

definition buildRepoCache :: "env \<Rightarrow> string \<Rightarrow> string \<Rightarrow> env \<times> RepoCache option" where
  "buildRepoCache E category repo =
     (case scanFileStructure E category repo of
        Inl e \<Rightarrow> (E, None)
      | Inr structure \<Rightarrow>
          (case getRepositoryMetadata E category repo structure of
             Inl e \<Rightarrow> (E, None)
           | Inr metadata \<Rightarrow>
               (let cache = \<lparr>rc_metadata = metadata, rc_structure = structure,
                              rc_searchIndex = buildSearchIndex E category repo structure\<rparr>
                in case saveRepoCache E category repo cache of
                     Inl e \<Rightarrow> (E, None)
                   | Inr E' \<Rightarrow> (E', Some cache))))"

section \<open>searchCodeWithCache\<close>

text \<open>
  The context of the line with 0-based index \<open>i\<close>: \<open>start = Math.max(0, i - 3)\<close> (the
  subtraction on \<open>nat\<close> stops at 0), \<open>end = Math.min(lines.length - 1, i + 3)\<close>, and
  \<open>lines.slice(start, end + 1)\<close>.
\<close>

definition context_window :: "string list \<Rightarrow> nat \<Rightarrow> context_line list" where
  "context_window lines i =
     (let start = i - 3; end' = min (length lines - 1) (i + 3)
      in map (\<lambda>it. \<lparr>c_line = fst it + 1, c_text = snd it, c_isMatch = (fst it = i)\<rparr>)
           (enumerate start (take (end' + 1 - start) (drop start lines))))"

text \<open>\<open>filePattern.replace(/\*/g, '.*')\<close>.\<close>

definition replace_star :: "string \<Rightarrow> string" where
  "replace_star filePattern = concat (map (\<lambda>c. if c = CHR ''*'' then ''.*'' else [c]) filePattern)"

text \<open>
  The file-pattern filter of one posting: \<open>Inr True\<close> when the posting passes.  The
  \<open>RegExp\<close> constructor throws on a malformed pattern.
\<close>

definition file_filter :: "env \<Rightarrow> string \<Rightarrow> string \<Rightarrow> js_error + bool" where
  "file_filter E filePattern fname =
     (if filePattern = ''*'' then Inr True
      else case js_regexp E (replace_star filePattern) False of
             None \<Rightarrow> Inl SyntaxError
           | Some test \<Rightarrow> Inr (test fname))"

text \<open>
  One record per position of a posting.  \<open>position\<close> is 1-based; \<open>line = position - 1\<close>
  is skipped when \<open>line < 0 || line >= lines.length\<close>.
\<close>

definition position_records :: "string \<Rightarrow> string \<Rightarrow> string \<Rightarrow> string list \<Rightarrow> nat list \<Rightarrow> SearchResult list" where
  "position_records category repo fname lines positions =
     map (\<lambda>position.
            \<lparr>r_category = category, r_repo = repo, r_file = fname,
             r_matches = [\<lparr>m_line = position, m_content = lines ! (position - 1),
                           m_context = context_window lines (position - 1)\<rparr>]\<rparr>)
       (filter (\<lambda>position. \<not> (position < 1 \<or> position - 1 \<ge> length lines)) positions)"

text \<open>The inner \<open>try\<close>: a file that cannot be read adds nothing.\<close>

definition emit_posting :: "env \<Rightarrow> string \<Rightarrow> string \<Rightarrow> posting \<Rightarrow> SearchResult list \<Rightarrow> SearchResult list" where
  "emit_posting E category repo match results =
     (case read_file E category repo (p_file match) of
        None \<Rightarrow> results
      | Some content \<Rightarrow>
          results @ position_records category repo (p_file match)
                      (split_on (CHR ''\<newline>'') content) (p_positions match))"

definition exact_posting :: "env \<Rightarrow> string \<Rightarrow> string \<Rightarrow> string \<Rightarrow> posting \<Rightarrow> SearchResult list \<Rightarrow> js_error + SearchResult list" where
  "exact_posting E filePattern category repo match results =
     (case file_filter E filePattern (p_file match) of
        Inl e \<Rightarrow> Inl e
      | Inr pass \<Rightarrow> Inr (if pass then emit_posting E category repo match results else results))"

text \<open>
  Step (a), \<open>if (searchIndex.exactTerms[pattern])\<close>: an inherited property is truthy and
  not iterable, so the \<open>for ... of\<close> throws.
\<close>

definition exact_lookup :: "env \<Rightarrow> string \<Rightarrow> string \<Rightarrow> string \<Rightarrow> string \<Rightarrow> SearchIndex \<Rightarrow> SearchResult list \<Rightarrow> js_error + SearchResult list" where
  "exact_lookup E pattern filePattern category repo idx results =
     (case js_get (exactTerms idx) pattern of
        Undefined \<Rightarrow> Inr results
      | Inherited \<Rightarrow> Inl TypeError
      | Own ps \<Rightarrow> for_each (exact_posting E filePattern category repo) ps results)"

text \<open>
  Step (b), inside its own \<open>try\<close>: an exception ends the loop over the terms and keeps
  the results pushed so far.  The keys of \<open>terms\<close> are visited in the order in which they
  were added; an all-digit key (the sub-token \<open>123\<close> of \<open>q_123\<close>), which \<open>Object.keys\<close>
  lists first, is not modelled.
\<close>

definition fuzzy_posting :: "env \<Rightarrow> string \<Rightarrow> string \<Rightarrow> string \<Rightarrow> posting \<Rightarrow> SearchResult list \<Rightarrow> (js_error \<times> SearchResult list) + SearchResult list" where
  "fuzzy_posting E filePattern category repo match results =
     (case file_filter E filePattern (p_file match) of
        Inl e \<Rightarrow> Inl (e, results)
      | Inr pass \<Rightarrow> Inr (if pass then emit_posting E category repo match results else results))"

definition fuzzy_term :: "env \<Rightarrow> (string \<Rightarrow> bool) \<Rightarrow> string \<Rightarrow> string \<Rightarrow> string \<Rightarrow> SearchIndex \<Rightarrow> string \<Rightarrow> SearchResult list \<Rightarrow> (js_error \<times> SearchResult list) + SearchResult list" where
  "fuzzy_term E test filePattern category repo idx t results =
     (if test t
      then (case js_get (terms idx) t of
              Own ps \<Rightarrow> for_each (fuzzy_posting E filePattern category repo) ps results
            | _ \<Rightarrow> Inl (TypeError, results))
      else Inr results)"

definition fuzzy_fallback :: "env \<Rightarrow> string \<Rightarrow> string \<Rightarrow> string \<Rightarrow> string \<Rightarrow> SearchIndex \<Rightarrow> SearchResult list \<Rightarrow> SearchResult list" where
  "fuzzy_fallback E pattern filePattern category repo idx results =
     (case js_regexp E pattern True of
        None \<Rightarrow> results
      | Some test \<Rightarrow>
          (case for_each (fuzzy_term E test filePattern category repo idx) (map fst (terms idx)) results of
             Inl e \<Rightarrow> snd e
           | Inr results' \<Rightarrow> results'))"

text \<open>
  The cached path of one repository.  \<open>results\<close> is the list shared by all repositories
  of the query, and \<open>results.length === 0\<close> tests that list.
\<close>

definition cached_search :: "env \<Rightarrow> string \<Rightarrow> string \<Rightarrow> string \<Rightarrow> string \<Rightarrow> SearchIndex \<Rightarrow> SearchResult list \<Rightarrow> js_error + SearchResult list" where
  "cached_search E pattern filePattern category repo idx results =
     (case exact_lookup E pattern filePattern category repo idx results of
        Inl e \<Rightarrow> Inl e
      | Inr results' \<Rightarrow>
          Inr (if length results' = 0
               then fuzzy_fallback E pattern filePattern category repo idx results'
               else results'))"

text \<open>The direct scan of one file: one record with every matching line.\<close>

definition make_match :: "string list \<Rightarrow> nat \<Rightarrow> SearchMatch" where
  "make_match lines i =
     \<lparr>m_line = i + 1, m_content = lines ! i, m_context = context_window lines i\<rparr>"

definition matchingLines :: "string \<Rightarrow> string list \<Rightarrow> SearchMatch list" where
  "matchingLines pattern lines =
     map (make_match lines) (filter (\<lambda>i. includes_str (lines ! i) pattern) [0..<length lines])"

definition scan_file :: "env \<Rightarrow> string \<Rightarrow> string \<Rightarrow> string \<Rightarrow> string \<Rightarrow> SearchResult list \<Rightarrow> SearchResult list" where
  "scan_file E pattern category repo fname results =
     (case read_file E category repo fname of
        None \<Rightarrow> results
      | Some content \<Rightarrow>
          (let ms = matchingLines pattern (split_on (CHR ''\<newline>'') content)
           in if length ms > 0
              then results @ [\<lparr>r_category = category, r_repo = repo, r_file = fname, r_matches = ms\<rparr>]
              else results))"

text \<open>
  The fallback of one repository.  The rebuild it schedules with \<open>setTimeout\<close> runs
  after the search and changes only this repository's cache; it is not part of the
  value returned.
\<close>

definition fallback_scan :: "env \<Rightarrow> string \<Rightarrow> string \<Rightarrow> string \<Rightarrow> string \<Rightarrow> SearchResult list \<Rightarrow> js_error + SearchResult list" where
  "fallback_scan E pattern filePattern category repo results =
     (case globby E category repo (''**/'' @ filePattern) of
        Inl e \<Rightarrow> Inl e
      | Inr files \<Rightarrow> Inr (fold (scan_file E pattern category repo) files results))"

text \<open>The body of \<open>for (const repo of repos)\<close>.\<close>

definition search_repo :: "env \<Rightarrow> string \<Rightarrow> string \<Rightarrow> string \<Rightarrow> string \<Rightarrow> SearchResult list \<Rightarrow> js_error + SearchResult list" where
  "search_repo E pattern filePattern category repo results =
     (if \<not> path_exists E category repo then Inr results
      else if isCacheValid E category repo
      then (case loadSearchIndex E category repo of
              None \<Rightarrow> Inr results
            | Some idx \<Rightarrow> cached_search E pattern filePattern category repo idx results)
      else fallback_scan E pattern filePattern category repo results)"

text \<open>An optional string argument is used when it is truthy: given and not empty.\<close>

definition truthy :: "string option \<Rightarrow> bool" where
  "truthy a = (case a of None \<Rightarrow> False | Some s \<Rightarrow> s \<noteq> [])"

text \<open>
  The body of \<open>for (const category of categories)\<close>.  A category name inherited from
  \<open>Object.prototype\<close> passes the existence test and has no keys.
\<close>

definition search_category :: "env \<Rightarrow> string \<Rightarrow> string \<Rightarrow> string option \<Rightarrow> string \<Rightarrow> SearchResult list \<Rightarrow> js_error + SearchResult list" where
  "search_category E pattern filePattern repoFilter category results =
     (case js_get (registry E) category of
        Undefined \<Rightarrow> Inr results
      | Inherited \<Rightarrow>
          for_each (search_repo E pattern filePattern category)
            (if truthy repoFilter then [the repoFilter] else []) results
      | Own names \<Rightarrow>
          for_each (search_repo E pattern filePattern category)
            (if truthy repoFilter then [the repoFilter] else names) results)"

definition search_all :: "env \<Rightarrow> string \<Rightarrow> string \<Rightarrow> string option \<Rightarrow> string option \<Rightarrow> js_error + SearchResult list" where
  "search_all E pattern filePattern categoryFilter repoFilter =
     for_each (search_category E pattern filePattern repoFilter)
       (if truthy categoryFilter then [the categoryFilter] else map fst (registry E)) []"

text \<open>The outer \<open>try\<close>: any exception that reaches it gives the empty list.\<close>

definition searchCodeWithCache :: "env \<Rightarrow> string \<Rightarrow> string \<Rightarrow> string option \<Rightarrow> string option \<Rightarrow> SearchResult list" where
  "searchCodeWithCache E pattern filePattern categoryFilter repoFilter =
     (case search_all E pattern filePattern categoryFilter repoFilter of
        Inl e \<Rightarrow> []
      | Inr results \<Rightarrow> results)"

section \<open>The \<open>search_code\<close> tool\<close>




section \<open>Notions used in the statements\<close>

text \<open>
  Every postings list of an index satisfies \<open>L\<close>, and every posting \<open>R\<close>; both may
  depend on the token's key.
\<close>

definition all_lists :: "(string \<Rightarrow> posting list \<Rightarrow> bool) \<Rightarrow> postings_index \<Rightarrow> bool" where
  "all_lists L ix = (\<forall>(t, ps) \<in> set ix. L t ps)"

definition all_postings :: "(string \<Rightarrow> posting \<Rightarrow> bool) \<Rightarrow> postings_index \<Rightarrow> bool" where
  "all_postings R ix = all_lists (\<lambda>t ps. \<forall>p \<in> set ps. R t p) ix"

text \<open>
  Token \<open>t\<close> stands on line \<open>ln\<close> (1-based) of a file that \<open>buildSearchIndex\<close> reads: an
  entry of the structure that passes the size and extension tests and can be read.
\<close>

definition token_at :: "env \<Rightarrow> string \<Rightarrow> string \<Rightarrow> FileStructure \<Rightarrow> string \<Rightarrow> nat \<Rightarrow> string \<Rightarrow> bool" where
  "token_at E category repo structure fl ln t =
     (\<exists>info content.
        (fl, info) \<in> set (fs_files structure) \<and> fi_size info \<le> 1024 * 1024 \<and>
        allowed_extension fl \<and> read_file E category repo fl = Some content \<and>
        0 < ln \<and> ln \<le> length (split_on (CHR ''\<newline>'') content) \<and>
        t \<in> set (identifiers (split_on (CHR ''\<newline>'') content ! (ln - 1))) \<and>
        \<not> skipped_term t)"

text \<open>
  A token on which the index update throws: the token, or the lower-case form of one
  of its sub-tokens, names a property inherited from \<open>Object.prototype\<close>.  A content
  indexes cleanly when none of its indexed tokens throws.  \<open>has_posting ix t fl\<close>: the
  postings list of \<open>t\<close> has a posting of the file \<open>fl\<close>; \<open>indexed idx t fl\<close>: so have the
  list of \<open>t\<close> in \<open>exactTerms\<close> and the list of each of its sub-tokens in \<open>terms\<close>.
\<close>

definition throwing_term :: "string \<Rightarrow> bool" where
  "throwing_term t =
     (t \<in> set object_prototype_keys \<or>
      list_ex (\<lambda>s. toLowerCase s \<in> set object_prototype_keys) (allTerms t))"

definition indexes_cleanly :: "string \<Rightarrow> bool" where
  "indexes_cleanly content =
     (\<forall>line \<in> set (split_on (CHR ''\<newline>'') content). \<forall>t \<in> set (identifiers line).
        \<not> skipped_term t \<longrightarrow> \<not> throwing_term t)"

definition has_posting :: "postings_index \<Rightarrow> string \<Rightarrow> string \<Rightarrow> bool" where
  "has_posting ix t fl = (\<exists>ps. map_of ix t = Some ps \<and> fl \<in> p_file ` set ps)"

definition indexed :: "SearchIndex \<Rightarrow> string \<Rightarrow> string \<Rightarrow> bool" where
  "indexed idx t fl =
     (has_posting (exactTerms idx) t fl \<and>
      (\<forall>s \<in> set (allTerms t). has_posting (terms idx) (toLowerCase s) fl))"

text \<open>The keys of \<open>processedTerms\<close> stand for postings of the file being indexed.\<close>

definition processed_ok :: "string \<Rightarrow> index_state \<Rightarrow> bool" where
  "processed_ok fl st =
     (\<forall>t. termFileKey t fl \<in> set (snd st) \<longrightarrow> has_posting (exactTerms (fst st)) t fl)"



text \<open>
  What one file has put into a postings index.  \<open>file_postings fl ix t\<close>: the postings of
  the file \<open>fl\<close> in the list of \<open>t\<close>.  \<open>line_tokens\<close>: the identifiers of a content in
  reading order, each with its 1-based line number; \<open>indexed_tokens\<close>: those that are not
  skipped; \<open>sub_tokens\<close>: the lower-case sub-tokens they give, with the same line numbers;
  \<open>token_lines t\<close>: the line numbers of the entries that are \<open>t\<close>, one per entry;
  \<open>first_occurrences\<close>: a list without its repetitions; \<open>posting_of fl n positions\<close>: no
  posting when \<open>n = 0\<close>, and else the single posting of \<open>fl\<close> with that counter and
  those positions.  \<open>file_indexed fl toks st\<close>: the loop state holds for \<open>fl\<close> exactly
  what the tokens \<open>toks\<close> give.
\<close>

definition file_postings :: "string \<Rightarrow> postings_index \<Rightarrow> string \<Rightarrow> posting list" where
  "file_postings fl ix t =
     (case map_of ix t of None \<Rightarrow> [] | Some ps \<Rightarrow> filter (\<lambda>p. p_file p = fl) ps)"

definition line_tokens :: "string \<Rightarrow> (nat \<times> string) list" where
  "line_tokens content =
     concat (map (\<lambda>il. map (\<lambda>t. (fst il + 1, t)) (identifiers (snd il)))
               (enumerate 0 (split_on (CHR ''\<newline>'') content)))"

definition indexed_tokens :: "(nat \<times> string) list \<Rightarrow> (nat \<times> string) list" where
  "indexed_tokens toks = filter (\<lambda>lt. \<not> skipped_term (snd lt)) toks"

definition sub_tokens :: "(nat \<times> string) list \<Rightarrow> (nat \<times> string) list" where
  "sub_tokens toks = concat (map (\<lambda>lt. map (\<lambda>s. (fst lt, toLowerCase s)) (allTerms (snd lt))) toks)"

definition token_lines :: "string \<Rightarrow> (nat \<times> string) list \<Rightarrow> nat list" where
  "token_lines t toks = map fst (filter (\<lambda>lt. snd lt = t) toks)"

definition first_occurrences :: "nat list \<Rightarrow> nat list" where
  "first_occurrences xs = rev (remdups (rev xs))"

definition posting_of :: "string \<Rightarrow> nat \<Rightarrow> nat list \<Rightarrow> posting list" where
  "posting_of fl n positions =
     (if n = 0 then [] else [\<lparr>p_file = fl, p_occurrences = n, p_positions = positions\<rparr>])"

definition file_indexed :: "string \<Rightarrow> (nat \<times> string) list \<Rightarrow> index_state \<Rightarrow> bool" where
  "file_indexed fl toks st =
     ((\<forall>t. termFileKey t fl \<in> set (snd st) \<longleftrightarrow> token_lines t (indexed_tokens toks) \<noteq> []) \<and>
      (\<forall>t. file_postings fl (exactTerms (fst st)) t =
              posting_of fl (length (token_lines t (indexed_tokens toks)))
                (token_lines t (indexed_tokens toks))) \<and>
      (\<forall>k. file_postings fl (terms (fst st)) k =
              posting_of fl (length (token_lines k (sub_tokens (indexed_tokens toks))))
                (first_occurrences (token_lines k (sub_tokens (indexed_tokens toks))))))"

text \<open>
  For the files of a postings list: \<open>files_within\<close> says that no list of \<open>exactTerms\<close>
  names a file twice or a file outside \<open>S\<close>; \<open>files_tracked\<close> is the same while the file
  \<open>fl\<close> is being indexed, when a posting of \<open>fl\<close> under \<open>t\<close> means that the key of
  \<open>t\<close> is in \<open>processedTerms\<close>.
\<close>

definition files_within :: "string set \<Rightarrow> SearchIndex \<Rightarrow> bool" where
  "files_within S idx =
     all_lists (\<lambda>t ps. distinct (map p_file ps) \<and> p_file ` set ps \<subseteq> S) (exactTerms idx)"

definition files_tracked :: "string \<Rightarrow> string set \<Rightarrow> index_state \<Rightarrow> bool" where
  "files_tracked fl S st =
     all_lists (\<lambda>t ps. distinct (map p_file ps) \<and> p_file ` set ps \<subseteq> insert fl S \<and>
                  (fl \<in> p_file ` set ps \<longrightarrow> termFileKey t fl \<in> set (snd st)))
       (exactTerms (fst st))"

text \<open>
  What identifies a group of the result, and the files a direct scan has to report: the
  files \<open>globby\<close> lists, in its order, that can be read and have a line containing the
  pattern; then over the repositories of the registry, in its order.
\<close>

definition group_key :: "SearchResult \<Rightarrow> string \<times> string \<times> string" where
  "group_key g = (r_category g, r_repo g, r_file g)"

definition file_matches :: "env \<Rightarrow> string \<Rightarrow> string \<Rightarrow> string \<Rightarrow> string \<Rightarrow> bool" where
  "file_matches E pattern category repo fname =
     (case read_file E category repo fname of
        None \<Rightarrow> False
      | Some content \<Rightarrow> list_ex (\<lambda>l. includes_str l pattern) (split_on (CHR ''\<newline>'') content))"

definition repo_matching_files :: "env \<Rightarrow> string \<Rightarrow> string \<Rightarrow> string \<Rightarrow> string \<Rightarrow> (string \<times> string \<times> string) list" where
  "repo_matching_files E pattern filePattern category repo =
     (if path_exists E category repo
      then (case globby E category repo (''**/'' @ filePattern) of
              Inl e \<Rightarrow> []
            | Inr files \<Rightarrow>
                map (\<lambda>f. (category, repo, f)) (filter (file_matches E pattern category repo) files))
      else [])"

definition matching_files :: "env \<Rightarrow> string \<Rightarrow> string \<Rightarrow> (string \<times> string \<times> string) list" where
  "matching_files E pattern filePattern =
     concat (map (\<lambda>cn. concat (map (repo_matching_files E pattern filePattern (fst cn)) (snd cn)))
               (registry E))"

text \<open>
  No repository of the registry that exists has a valid cache, and \<open>globby\<close> lists the
  files of each: the whole search is a sequence of direct scans.
\<close>

definition scans_directly :: "env \<Rightarrow> string \<Rightarrow> bool" where
  "scans_directly E filePattern =
     (\<forall>cn \<in> set (registry E). \<forall>r \<in> set (snd cn).
        path_exists E (fst cn) r \<longrightarrow>
          \<not> isCacheValid E (fst cn) r \<and>
          (\<exists>files. globby E (fst cn) r (''**/'' @ filePattern) = Inr files))"

text \<open>
  A failure of one repository that the search contains: its working tree is absent; or
  its cache is valid and the search index cannot be loaded; or its cache is not valid,
  its files can be listed and none of them can be read.
\<close>

definition contained_failure :: "env \<Rightarrow> string \<Rightarrow> string \<Rightarrow> string \<Rightarrow> bool" where
  "contained_failure E filePattern category repo =
     (\<not> path_exists E category repo \<or>
      (isCacheValid E category repo \<and> loadSearchIndex E category repo = None) \<or>
      (\<not> isCacheValid E category repo \<and>
       (\<exists>files. globby E category repo (''**/'' @ filePattern) = Inr files \<and>
                (\<forall>f \<in> set files. read_file E category repo f = None))))"

text \<open>The matches of a result, each with the file it belongs to.\<close>

definition match_set :: "SearchResult list \<Rightarrow> ((string \<times> string \<times> string) \<times> SearchMatch) set" where
  "match_set rs = (\<Union>g \<in> set rs. (\<lambda>m. (group_key g, m)) ` set (r_matches g))"

section \<open>Example environments\<close>

text \<open>
  \<open>RegExp\<close> for a source of letters and digits only, which matches where the source
  occurs (in any case under the \<open>i\<close> flag).  The examples construct no other pattern.
\<close>

definition literal_regexp :: "string \<Rightarrow> bool \<Rightarrow> (string \<Rightarrow> bool) option" where
  "literal_regexp src ignoreCase =
     (if list_all (\<lambda>c. c \<in> set lower_letters \<or> c \<in> set upper_letters \<or> c \<in> set digits) src
      then Some (\<lambda>s. if ignoreCase then includes_str (toLowerCase s) (toLowerCase src)
                      else includes_str s src)
      else None)"

text \<open>
  An environment from a registry and, per repository, the files of its working tree
  with their contents: every tree exists and can be read, \<open>globby\<close> lists all its
  files, no cache has been written yet.
\<close>

definition example_env :: "(string \<times> string list) list \<Rightarrow> (string \<Rightarrow> string \<Rightarrow> (string \<times> string) list) \<Rightarrow> env" where
  "example_env reg tree =
     \<lparr>registry = reg,
      path_exists = (\<lambda>c r. True),
      read_file = (\<lambda>c r f. map_of (tree c r) f),
      stat_size = (\<lambda>c r f. map_option length (map_of (tree c r) f)),
      readdir_ok = (\<lambda>c r. True),
      globby = (\<lambda>c r p. Inr (map fst (tree c r))),
      revparse_HEAD = (\<lambda>c r. Inr ''4b825dc\<newline>''),
      metadata_doc = (\<lambda>c r. Absent),
      searchIndex_doc = (\<lambda>c r. Absent),
      cache_writable = (\<lambda>c r. True),
      js_regexp = literal_regexp\<rparr>"

text \<open>One repository with one file, \<open>a.ts\<close>, whose only line is \<open>foo foo\<close>.\<close>

definition env_twice :: env where
  "env_twice = example_env [(''lib'', [''alpha''])] (\<lambda>c r. [(''a.ts'', ''foo foo'')])"

text \<open>
  One repository with \<open>a.ts\<close>, three lines with \<open>foo\<close> twice on the first and on the third,
  and \<open>b.ts\<close>, which has \<open>foo\<close> once.
\<close>

definition env_lines :: env where
  "env_lines = example_env [(''lib'', [''alpha''])]
     (\<lambda>c r. [(''a.ts'', ''foo foo\<newline>bar\<newline>foo foo''), (''b.ts'', ''foo'')])"

text \<open>The same repository with two files: \<open>a.ts\<close> (\<open>foo foo\<close>) and \<open>b.ts\<close> (\<open>foo\<close>).\<close>

definition env_two :: env where
  "env_two = example_env [(''lib'', [''alpha''])] (\<lambda>c r. [(''a.ts'', ''foo foo''), (''b.ts'', ''foo'')])"

text \<open>
  A file of exactly 1 MiB: \<open>foo\<close> followed by 1048573 line feeds.
\<close>

definition mib_content :: string where
  "mib_content = ''foo'' @ replicate 1048573 (CHR ''\<newline>'')"

definition env_mib :: env where
  "env_mib = example_env [(''lib'', [''alpha''])] (\<lambda>c r. [(''a.ts'', mib_content)])"

text \<open>A repository with an indexed file \<open>a.ts\<close> and a text file \<open>c.txt\<close>, both \<open>foo foo\<close>.\<close>

definition env_mixed :: env where
  "env_mixed = example_env [(''lib'', [''alpha''])] (\<lambda>c r. [(''a.ts'', ''foo foo''), (''c.txt'', ''foo foo'')])"

text \<open>
  Two repositories, each with its cache built: \<open>alpha\<close> has the token \<open>user\<close>, \<open>beta\<close>
  has \<open>getUser\<close>, whose sub-token \<open>user\<close> is in \<open>terms\<close> only.
\<close>

definition env_user :: env where
  "env_user = example_env [(''lib'', [''alpha'', ''beta''])]
     (\<lambda>c r. if r = ''alpha'' then [(''a.ts'', ''user'')] else [(''b.ts'', ''getUser'')])"

definition env_user_alpha :: env where
  "env_user_alpha = fst (buildRepoCache env_user ''lib'' ''alpha'')"

definition env_user_cached :: env where
  "env_user_cached = fst (buildRepoCache env_user_alpha ''lib'' ''beta'')"

text \<open>The same with the registry naming \<open>beta\<close> before \<open>alpha\<close>.\<close>

definition env_user_cached_rev :: env where
  "env_user_cached_rev = env_user_cached\<lparr>registry := [(''lib'', [''beta'', ''alpha''])]\<rparr>"

text \<open>One repository: \<open>a.ts\<close> has \<open>foo\<close> on two lines, \<open>b.ts\<close> on five.\<close>

definition env_ranked :: env where
  "env_ranked = example_env [(''lib'', [''alpha''])]
     (\<lambda>c r. [(''a.ts'', ''foo\<newline>x\<newline>foo''),
              (''b.ts'', ''foo\<newline>foo\<newline>foo\<newline>foo\<newline>foo'')])"

definition env_ranked_cached :: env where
  "env_ranked_cached = fst (buildRepoCache env_ranked ''lib'' ''alpha'')"

text \<open>
  Two repositories with the same file; the directory enumeration of \<open>beta\<close> fails (a
  directory of its tree cannot be read).
\<close>

definition env_glob_fails :: env where
  "env_glob_fails =
     (example_env [(''lib'', [''alpha'', ''beta''])] (\<lambda>c r. [(''a.ts'', ''foo'')]))
       \<lparr>globby := (\<lambda>c r p. if r = ''beta'' then Inl IOError else Inr [''a.ts''])\<rparr>"

text \<open>One repository whose file \<open>a.ts\<close> is the line \<open>ab\<close>.\<close>

definition env_short :: env where
  "env_short = example_env [(''lib'', [''alpha''])] (\<lambda>c r. [(''a.ts'', ''ab'')])"

definition env_short_cached :: env where
  "env_short_cached = fst (buildRepoCache env_short ''lib'' ''alpha'')"



text \<open>
  Two repositories with the same file; the working tree of \<open>beta\<close> has been deleted.
\<close>

definition env_beta_deleted :: env where
  "env_beta_deleted =
     (example_env [(''lib'', [''alpha'', ''beta''])] (\<lambda>c r. [(''a.ts'', ''foo'')]))
       \<lparr>path_exists := (\<lambda>c r. r \<noteq> ''beta''),
        read_file := (\<lambda>c r f. if r = ''beta'' then None else map_of [(''a.ts'', ''foo'')] f),
        globby := (\<lambda>c r p. if r = ''beta'' then Inr [] else Inr [''a.ts'']),
        revparse_HEAD := (\<lambda>c r. if r = ''beta'' then Inl IOError else Inr ''4b825dc\<newline>'')\<rparr>"

text \<open>One repository whose file \<open>a.ts\<close> is the line \<open>constructor foo\<close>.\<close>

definition env_ctor :: env where
  "env_ctor = example_env [(''lib'', [''alpha''])] (\<lambda>c r. [(''a.ts'', ''constructor foo'')])"

section \<open>Loops with exceptions\<close>

lemma for_each_invariant:
  assumes "P s"
    and "\<And>x s. x \<in> set xs \<Longrightarrow> P s \<Longrightarrow> (case f x s of Inl e \<Rightarrow> Q e | Inr s' \<Rightarrow> P s')"
  shows "case for_each f xs s of Inl e \<Rightarrow> Q e | Inr s' \<Rightarrow> P s'"
  using assms
proof (induction xs arbitrary: s)
  case Nil
  then show ?case by simp
next
  case (Cons x xs)
  from Cons.prems have step: "case f x s of Inl e \<Rightarrow> Q e | Inr s' \<Rightarrow> P s'"
    by simp
  show ?case
  proof (cases "f x s")
    case (Inl e)
    with step show ?thesis by simp
  next
    case (Inr s')
    with step have "P s'" by simp
    then have "case for_each f xs s' of Inl e \<Rightarrow> Q e | Inr s'' \<Rightarrow> P s''"
      using Cons.prems(2) by (intro Cons.IH) auto
    with Inr show ?thesis by simp
  qed
qed

lemma fold_invariant:
  "I s \<Longrightarrow> (\<And>x s. x \<in> set xs \<Longrightarrow> I s \<Longrightarrow> I (f x s)) \<Longrightarrow> I (fold f xs s)"
  by (induction xs arbitrary: s) auto

section \<open>Invariants of the index builder\<close>

text \<open>
  An invariant \<open>P\<close> of the loop state, with \<open>Q\<close> for the index an exception leaves
  behind, is carried from the two updates of one token to the whole file.
\<close>

lemma index_identifier_invariant:
  assumes st: "P st"
    and exact: "\<not> skipped_term t \<Longrightarrow>
           (case add_exact fl ln t st of Inl e \<Rightarrow> Q e | Inr st' \<Rightarrow> P st')"
    and sub: "\<And>s st'. \<not> skipped_term t \<Longrightarrow> s \<in> set (allTerms t) \<Longrightarrow> P st' \<Longrightarrow>
           (case add_term fl ln s st' of Inl e \<Rightarrow> Q e | Inr st'' \<Rightarrow> P st'')"
  shows "case index_identifier fl ln t st of Inl e \<Rightarrow> Q e | Inr st' \<Rightarrow> P st'"
proof (cases "skipped_term t")
  case True
  then show ?thesis using st by (simp add: index_identifier_def)
next
  case False
  show ?thesis
  proof (cases "add_exact fl ln t st")
    case (Inl e)
    with exact False show ?thesis by (simp add: index_identifier_def)
  next
    case (Inr st')
    with exact False have "P st'" by simp
    then have "case for_each (add_term fl ln) (allTerms t) st' of Inl e \<Rightarrow> Q e | Inr st'' \<Rightarrow> P st''"
      using sub[OF False]
      by (rule for_each_invariant[where P = P and Q = Q])
    with Inr False show ?thesis by (simp add: index_identifier_def)
  qed
qed

lemma index_content_invariant:
  assumes init: "P (idx, [])"
    and exact: "\<And>ln t st. 0 < ln \<Longrightarrow> ln \<le> length (split_on (CHR ''\<newline>'') content) \<Longrightarrow>
           t \<in> set (identifiers (split_on (CHR ''\<newline>'') content ! (ln - 1))) \<Longrightarrow>
           \<not> skipped_term t \<Longrightarrow> P st \<Longrightarrow>
           (case add_exact fl ln t st of Inl e \<Rightarrow> Q e | Inr st' \<Rightarrow> P st')"
    and sub: "\<And>ln t s st. 0 < ln \<Longrightarrow> ln \<le> length (split_on (CHR ''\<newline>'') content) \<Longrightarrow>
           t \<in> set (identifiers (split_on (CHR ''\<newline>'') content ! (ln - 1))) \<Longrightarrow>
           \<not> skipped_term t \<Longrightarrow> s \<in> set (allTerms t) \<Longrightarrow> P st \<Longrightarrow>
           (case add_term fl ln s st of Inl e \<Rightarrow> Q e | Inr st' \<Rightarrow> P st')"
  shows "case index_content fl content idx of Inl e \<Rightarrow> Q e | Inr st \<Rightarrow> P st"
  unfolding index_content_def
proof (rule for_each_invariant[where P = P and Q = Q, OF init])
  fix il :: "nat \<times> string" and s :: index_state
  assume il: "il \<in> set (enumerate 0 (split_on (CHR ''\<newline>'') content))" and s: "P s"
  from il have i: "fst il < length (split_on (CHR ''\<newline>'') content)"
    and line: "snd il = split_on (CHR ''\<newline>'') content ! fst il"
    by (auto simp: in_set_enumerate_eq)
  show "case index_line fl il s of Inl e \<Rightarrow> Q e | Inr s' \<Rightarrow> P s'"
    unfolding index_line_def
  proof (rule for_each_invariant[where P = P and Q = Q, OF s])
    fix t and s' :: index_state
    assume t: "t \<in> set (identifiers (snd il))" and s': "P s'"
    have ctx: "0 < fst il + 1" "fst il + 1 \<le> length (split_on (CHR ''\<newline>'') content)"
      "t \<in> set (identifiers (split_on (CHR ''\<newline>'') content ! (fst il + 1 - 1)))"
      using i line t by auto
    show "case index_identifier fl (fst il + 1) t s' of Inl e \<Rightarrow> Q e | Inr s'' \<Rightarrow> P s''"
      using s' exact[OF ctx] sub[OF ctx]
      by (intro index_identifier_invariant[where P = P and Q = Q]) auto
  qed
qed

text \<open>The same for an invariant of the index alone, over all files.\<close>

lemma buildSearchIndex_invariant:
  assumes init: "I \<lparr>exactTerms = [], terms = []\<rparr>"
    and exact: "\<And>fl ln t st. token_at E category repo structure fl ln t \<Longrightarrow> I (fst st) \<Longrightarrow>
           (case add_exact fl ln t st of Inl e \<Rightarrow> I (snd e) | Inr st' \<Rightarrow> I (fst st'))"
    and sub: "\<And>fl ln t s st. token_at E category repo structure fl ln t \<Longrightarrow> s \<in> set (allTerms t) \<Longrightarrow>
           I (fst st) \<Longrightarrow>
           (case add_term fl ln s st of Inl e \<Rightarrow> I (snd e) | Inr st' \<Rightarrow> I (fst st'))"
  shows "I (buildSearchIndex E category repo structure)"
  unfolding buildSearchIndex_def
proof (rule fold_invariant[where I = I, OF init])
  fix entry :: "string \<times> file_info" and idx :: SearchIndex
  assume entry: "entry \<in> set (fs_files structure)" and idx: "I idx"
  show "I (index_file E category repo entry idx)"
  proof (cases "fi_size (snd entry) \<le> 1024 * 1024 \<and> allowed_extension (fst entry)")
    case False
    then show ?thesis using idx by (auto simp: index_file_def)
  next
    case True
    show ?thesis
    proof (cases "read_file E category repo (fst entry)")
      case None
      then show ?thesis using idx by (simp add: index_file_def)
    next
      case (Some content)
      have tok: "token_at E category repo structure (fst entry) ln t"
        if "0 < ln" "ln \<le> length (split_on (CHR ''\<newline>'') content)"
          "t \<in> set (identifiers (split_on (CHR ''\<newline>'') content ! (ln - 1)))" "\<not> skipped_term t"
        for ln t
        unfolding token_at_def using that True Some entry
        by (intro exI[of _ "snd entry"] exI[of _ content]) auto
      have "case index_content (fst entry) content idx of
              Inl e \<Rightarrow> I (snd e) | Inr st \<Rightarrow> I (fst st)"
        using idx exact[OF tok] sub[OF tok]
        by (intro index_content_invariant[where P = "\<lambda>st. I (fst st)" and Q = "\<lambda>e. I (snd e)"]) auto
      then show ?thesis
        using True Some by (auto simp: index_file_def split: sum.splits)
    qed
  qed
qed

subsection \<open>Postings lists under the two updates\<close>

lemma all_lists_Nil: "all_lists L []"
  by (simp add: all_lists_def)

lemma all_lists_update:
  "all_lists L ix \<Longrightarrow> L k v \<Longrightarrow> all_lists L (AList.update k v ix)"
  by (induction ix) (auto simp: all_lists_def)

lemma all_lists_ensure_key: "all_lists L ix \<Longrightarrow> L k [] \<Longrightarrow> all_lists L (ensure_key ix k)"
  by (auto simp: all_lists_def ensure_key_def split: js_prop.splits)

lemma js_get_Own_D: "js_get ix k = Own ps \<Longrightarrow> (k, ps) \<in> set ix"
  by (auto simp: js_get_def split: option.splits if_splits dest: map_of_SomeD)

lemma all_lists_Own: "js_get ix k = Own ps \<Longrightarrow> all_lists L ix \<Longrightarrow> L k ps"
  by (auto simp: all_lists_def dest!: js_get_Own_D)

lemma all_lists_mono: "all_lists L ix \<Longrightarrow> (\<And>k ps. L k ps \<Longrightarrow> L' k ps) \<Longrightarrow> all_lists L' ix"
  by (auto simp: all_lists_def)

lemma update_found_all:
  "\<forall>p \<in> set ps. R p \<Longrightarrow> (\<And>p. R p \<Longrightarrow> pred p \<Longrightarrow> R (f p)) \<Longrightarrow> \<forall>p \<in> set (update_found pred f ps). R p"
  by (induction ps) auto

lemma map_update_found:
  "(\<And>p. g (f p) = g p) \<Longrightarrow> map g (update_found pred f ps) = map g ps"
  by (induction ps) auto

lemma add_exact_terms_frame:
  "case add_exact fl ln t st of
     Inl e \<Rightarrow> terms (snd e) = terms (fst st)
   | Inr st' \<Rightarrow> terms (fst st') = terms (fst st)"
  by (simp add: add_exact_def Let_def split: js_prop.splits)

lemma add_term_exact_frame:
  "case add_term fl ln s st of
     Inl e \<Rightarrow> exactTerms (snd e) = exactTerms (fst st)
   | Inr st' \<Rightarrow> exactTerms (fst st') = exactTerms (fst st) \<and> snd st' = snd st"
  by (simp add: add_term_def Let_def split: js_prop.splits)

lemma add_exact_postings:
  assumes "all_postings R (exactTerms (fst st))"
    and "R t \<lparr>p_file = fl, p_occurrences = 1, p_positions = [ln]\<rparr>"
    and "\<And>p. R t p \<Longrightarrow> p_file p = fl \<Longrightarrow>
           R t (p\<lparr>p_occurrences := p_occurrences p + 1, p_positions := p_positions p @ [ln]\<rparr>)"
  shows "case add_exact fl ln t st of
           Inl e \<Rightarrow> all_postings R (exactTerms (snd e))
         | Inr st' \<Rightarrow> all_postings R (exactTerms (fst st'))"
proof -
  let ?L = "\<lambda>t ps. \<forall>p \<in> set ps. R t p"
  let ?ex = "ensure_key (exactTerms (fst st)) t"
  have ex: "all_lists ?L ?ex"
    using assms(1) by (auto simp: all_postings_def intro: all_lists_ensure_key)
  show ?thesis
  proof (cases "js_get ?ex t")
    case (Own ps)
    then have ps: "\<forall>p \<in> set ps. R t p"
      using ex by (rule all_lists_Own)
    have new: "?L t (ps @ [\<lparr>p_file = fl, p_occurrences = 1, p_positions = [ln]\<rparr>])"
      using ps assms(2) by simp
    have upd: "?L t (update_found (\<lambda>e. p_file e = fl)
                  (\<lambda>e. e\<lparr>p_occurrences := p_occurrences e + 1, p_positions := p_positions e @ [ln]\<rparr>) ps)"
      using ps assms(3) by (intro update_found_all) auto
    show ?thesis
      using Own all_lists_update[of ?L, OF ex new] all_lists_update[of ?L, OF ex upd]
      by (simp add: add_exact_def Let_def all_postings_def)
  next
    case Inherited
    then show ?thesis using ex by (simp add: add_exact_def Let_def all_postings_def)
  next
    case Undefined
    then show ?thesis using ex by (simp add: add_exact_def Let_def all_postings_def)
  qed
qed

lemma add_term_postings:
  assumes "all_postings R (terms (fst st))"
    and "R (toLowerCase s) \<lparr>p_file = fl, p_occurrences = 1, p_positions = [ln]\<rparr>"
    and "\<And>p. R (toLowerCase s) p \<Longrightarrow> p_file p = fl \<Longrightarrow>
           R (toLowerCase s) (p\<lparr>p_occurrences := p_occurrences p + 1,
              p_positions := (if ln \<in> set (p_positions p) then p_positions p else p_positions p @ [ln])\<rparr>)"
  shows "case add_term fl ln s st of
           Inl e \<Rightarrow> all_postings R (terms (snd e))
         | Inr st' \<Rightarrow> all_postings R (terms (fst st'))"
proof -
  let ?L = "\<lambda>t ps. \<forall>p \<in> set ps. R t p"
  let ?k = "toLowerCase s"
  let ?tm = "ensure_key (terms (fst st)) ?k"
  have tm: "all_lists ?L ?tm"
    using assms(1) by (auto simp: all_postings_def intro: all_lists_ensure_key)
  show ?thesis
  proof (cases "js_get ?tm ?k")
    case (Own ps)
    then have ps: "\<forall>p \<in> set ps. R ?k p"
      using tm by (rule all_lists_Own)
    have new: "?L ?k (ps @ [\<lparr>p_file = fl, p_occurrences = 1, p_positions = [ln]\<rparr>])"
      using ps assms(2) by simp
    have upd: "?L ?k (update_found (\<lambda>e. p_file e = fl)
                  (\<lambda>e. e\<lparr>p_occurrences := p_occurrences e + 1,
                          p_positions := (if ln \<in> set (p_positions e) then p_positions e
                                          else p_positions e @ [ln])\<rparr>) ps)"
      using ps assms(3) by (intro update_found_all) auto
    show ?thesis
      using Own all_lists_update[of ?L, OF tm new] all_lists_update[of ?L, OF tm upd]
      by (simp add: add_term_def Let_def all_postings_def)
  next
    case Inherited
    then show ?thesis using tm by (simp add: add_term_def Let_def all_postings_def)
  next
    case Undefined
    then show ?thesis using tm by (simp add: add_term_def Let_def all_postings_def)
  qed
qed

text \<open>A property of the postings of \<open>exactTerms\<close> that both updates of a token keep.\<close>

lemma buildSearchIndex_exact_postings:
  assumes new: "\<And>fl ln t. token_at E category repo structure fl ln t \<Longrightarrow>
             R t \<lparr>p_file = fl, p_occurrences = 1, p_positions = [ln]\<rparr>"
    and upd: "\<And>fl ln t p. token_at E category repo structure fl ln t \<Longrightarrow> R t p \<Longrightarrow> p_file p = fl \<Longrightarrow>
             R t (p\<lparr>p_occurrences := p_occurrences p + 1, p_positions := p_positions p @ [ln]\<rparr>)"
  shows "all_postings R (exactTerms (buildSearchIndex E category repo structure))"
proof (rule buildSearchIndex_invariant[where I = "\<lambda>idx. all_postings R (exactTerms idx)"])
  show "all_postings R (exactTerms \<lparr>exactTerms = [], terms = []\<rparr>)"
    by (simp add: all_postings_def all_lists_Nil)
next
  fix fl ln t and st :: index_state
  assume "token_at E category repo structure fl ln t" "all_postings R (exactTerms (fst st))"
  then show "case add_exact fl ln t st of
               Inl e \<Rightarrow> all_postings R (exactTerms (snd e))
             | Inr st' \<Rightarrow> all_postings R (exactTerms (fst st'))"
    using new upd by (intro add_exact_postings) auto
next
  fix fl ln t s and st :: index_state
  assume "all_postings R (exactTerms (fst st))"
  then show "case add_term fl ln s st of
               Inl e \<Rightarrow> all_postings R (exactTerms (snd e))
             | Inr st' \<Rightarrow> all_postings R (exactTerms (fst st'))"
    using add_term_exact_frame[where fl = fl and ln = ln and s = s and st = st]
    by (auto split: sum.splits)
qed

text \<open>The same for the postings of \<open>terms\<close>.\<close>

lemma buildSearchIndex_terms_postings:
  assumes new: "\<And>fl ln t s. token_at E category repo structure fl ln t \<Longrightarrow> s \<in> set (allTerms t) \<Longrightarrow>
             R (toLowerCase s) \<lparr>p_file = fl, p_occurrences = 1, p_positions = [ln]\<rparr>"
    and upd: "\<And>fl ln t s p. token_at E category repo structure fl ln t \<Longrightarrow> s \<in> set (allTerms t) \<Longrightarrow>
             R (toLowerCase s) p \<Longrightarrow> p_file p = fl \<Longrightarrow>
             R (toLowerCase s) (p\<lparr>p_occurrences := p_occurrences p + 1,
               p_positions := (if ln \<in> set (p_positions p) then p_positions p else p_positions p @ [ln])\<rparr>)"
  shows "all_postings R (terms (buildSearchIndex E category repo structure))"
proof (rule buildSearchIndex_invariant[where I = "\<lambda>idx. all_postings R (terms idx)"])
  show "all_postings R (terms \<lparr>exactTerms = [], terms = []\<rparr>)"
    by (simp add: all_postings_def all_lists_Nil)
next
  fix fl ln t and st :: index_state
  assume "all_postings R (terms (fst st))"
  then show "case add_exact fl ln t st of
               Inl e \<Rightarrow> all_postings R (terms (snd e))
             | Inr st' \<Rightarrow> all_postings R (terms (fst st'))"
    using add_exact_terms_frame[where fl = fl and ln = ln and t = t and st = st]
    by (auto split: sum.splits)
next
  fix fl ln t s and st :: index_state
  assume "token_at E category repo structure fl ln t" "s \<in> set (allTerms t)"
    "all_postings R (terms (fst st))"
  then show "case add_term fl ln s st of
               Inl e \<Rightarrow> all_postings R (terms (snd e))
             | Inr st' \<Rightarrow> all_postings R (terms (fst st'))"
    using new upd by (intro add_term_postings) auto
qed

section \<open>Evaluation of the examples\<close>

lemmas index_eval = buildSearchIndex_def index_file_def index_content_def index_line_def
  index_identifier_def add_exact_def add_term_def ensure_key_def js_get_def
  object_prototype_keys_def allTerms_def skipped_term_def stop_words_def
  allowed_extension_def allowed_extensions_def ends_with_def toLowerCase_def to_lower_def
  termFileKey_def is_ident_char_def is_ident_start_def is_upper_def lower_letters_def
  upper_letters_def digits_def Let_def

lemma index_env_twice:
  "buildSearchIndex env_twice ''lib'' ''alpha'' \<lparr>fs_files = [(''a.ts'', \<lparr>fi_size = 7\<rparr>)]\<rparr> =
     \<lparr>exactTerms = [(''foo'', [\<lparr>p_file = ''a.ts'', p_occurrences = 2, p_positions = [1, 1]\<rparr>])],
      terms = [(''foo'', [\<lparr>p_file = ''a.ts'', p_occurrences = 4, p_positions = [1]\<rparr>])]\<rparr>"
  by (simp add: index_eval env_twice_def example_env_def)

lemma index_env_two:
  "buildSearchIndex env_two ''lib'' ''alpha'' \<lparr>fs_files = [(''a.ts'', \<lparr>fi_size = 7\<rparr>), (''b.ts'', \<lparr>fi_size = 3\<rparr>)]\<rparr> =
     \<lparr>exactTerms = [(''foo'', [\<lparr>p_file = ''a.ts'', p_occurrences = 2, p_positions = [1, 1]\<rparr>,
                                \<lparr>p_file = ''b.ts'', p_occurrences = 1, p_positions = [1]\<rparr>])],
      terms = [(''foo'', [\<lparr>p_file = ''a.ts'', p_occurrences = 4, p_positions = [1]\<rparr>,
                           \<lparr>p_file = ''b.ts'', p_occurrences = 2, p_positions = [1]\<rparr>])]\<rparr>"
  by (simp add: index_eval env_two_def example_env_def)

lemma split_on_no_sep: "sep \<notin> set s \<Longrightarrow> split_on sep s = [s]"
  by (induction s) auto

lemma split_on_append_seps:
  "sep \<notin> set s \<Longrightarrow> split_on sep (s @ replicate n sep) = s # replicate n []"
proof (induction s)
  case Nil
  show ?case by (induction n) auto
next
  case (Cons c s)
  then show ?case by auto
qed

lemma index_empty_lines:
  "for_each (index_line fl) (enumerate k (replicate n [])) st = Inr st"
  by (induction n arbitrary: k) (auto simp: index_line_def)

lemma index_content_mib:
  "index_content ''a.ts'' mib_content \<lparr>exactTerms = [], terms = []\<rparr> =
     Inr (\<lparr>exactTerms = [(''foo'', [\<lparr>p_file = ''a.ts'', p_occurrences = 1, p_positions = [1]\<rparr>])],
           terms = [(''foo'', [\<lparr>p_file = ''a.ts'', p_occurrences = 2, p_positions = [1]\<rparr>])]\<rparr>,
          [''foo:a.ts''])"
proof -
  have lines: "split_on (CHR ''\<newline>'') mib_content = ''foo'' # replicate 1048573 []"
    unfolding mib_content_def by (rule split_on_append_seps) simp
  have first: "index_line ''a.ts'' (0, ''foo'') (\<lparr>exactTerms = [], terms = []\<rparr>, []) =
     Inr (\<lparr>exactTerms = [(''foo'', [\<lparr>p_file = ''a.ts'', p_occurrences = 1, p_positions = [1]\<rparr>])],
           terms = [(''foo'', [\<lparr>p_file = ''a.ts'', p_occurrences = 2, p_positions = [1]\<rparr>])]\<rparr>,
          [''foo:a.ts''])"
    by (simp add: index_eval)
  show ?thesis
    unfolding index_content_def lines
    by (simp only: enumerate_simps for_each.simps first sum.case index_empty_lines)
qed

lemma length_mib_content: "length mib_content = 1048576"
  by (simp add: mib_content_def)

lemma index_env_mib:
  "buildSearchIndex env_mib ''lib'' ''alpha'' \<lparr>fs_files = [(''a.ts'', \<lparr>fi_size = 1048576\<rparr>)]\<rparr> =
     \<lparr>exactTerms = [(''foo'', [\<lparr>p_file = ''a.ts'', p_occurrences = 1, p_positions = [1]\<rparr>])],
      terms = [(''foo'', [\<lparr>p_file = ''a.ts'', p_occurrences = 2, p_positions = [1]\<rparr>])]\<rparr>"
proof -
  have ext: "allowed_extension ''a.ts''"
    by (simp add: index_eval)
  have rd: "read_file env_mib ''lib'' ''alpha'' ''a.ts'' = Some mib_content"
    by (simp add: env_mib_def example_env_def)
  show ?thesis
    by (simp add: buildSearchIndex_def index_file_def ext rd index_content_mib)
qed

lemma scan_env_mib:
  "scanFileStructure env_mib ''lib'' ''alpha'' = Inr \<lparr>fs_files = [(''a.ts'', \<lparr>fi_size = 1048576\<rparr>)]\<rparr>"
  by (simp add: scanFileStructure_def env_mib_def example_env_def length_mib_content)


lemma index_env_mixed:
  "buildSearchIndex env_mixed ''lib'' ''alpha'' \<lparr>fs_files = [(''a.ts'', \<lparr>fi_size = 7\<rparr>), (''c.txt'', \<lparr>fi_size = 7\<rparr>)]\<rparr> =
     \<lparr>exactTerms = [(''foo'', [\<lparr>p_file = ''a.ts'', p_occurrences = 2, p_positions = [1, 1]\<rparr>])],
      terms = [(''foo'', [\<lparr>p_file = ''a.ts'', p_occurrences = 4, p_positions = [1]\<rparr>])]\<rparr>"
  by (simp add: index_eval env_mixed_def example_env_def)


text \<open>
  The token \<open>constructor\<close> reads the property that \<open>exactTerms\<close> inherits from
  \<open>Object.prototype\<close>; the \<open>push\<close> on it throws, and the rest of the file is skipped.
\<close>

lemma index_env_ctor:
  "buildSearchIndex env_ctor ''lib'' ''alpha'' \<lparr>fs_files = [(''a.ts'', \<lparr>fi_size = 15\<rparr>)]\<rparr> =
     \<lparr>exactTerms = [], terms = []\<rparr>"
  by (simp add: index_eval env_ctor_def example_env_def)


section \<open>No file twice in a postings list\<close>

lemma files_tracked_within: "files_tracked fl S st \<Longrightarrow> files_within (insert fl S) (fst st)"
  unfolding files_tracked_def files_within_def all_lists_def by fastforce

lemma add_exact_files_tracked:
  assumes "files_tracked fl S st"
  shows "case add_exact fl ln t st of
           Inl e \<Rightarrow> files_within (insert fl S) (snd e)
         | Inr st' \<Rightarrow> files_tracked fl S st'"
proof -
  let ?key = "termFileKey t fl"
  let ?L = "\<lambda>proc t ps. distinct (map p_file ps) \<and> p_file ` set ps \<subseteq> insert fl S \<and>
                  (fl \<in> p_file ` set ps \<longrightarrow> termFileKey t fl \<in> set proc)"
  let ?ex = "ensure_key (exactTerms (fst st)) t"
  have ex: "all_lists (?L (snd st)) ?ex"
    using assms unfolding files_tracked_def by (intro all_lists_ensure_key) auto
  show ?thesis
  proof (cases "js_get ?ex t")
    case (Own ps)
    then have ps: "?L (snd st) t ps"
      using ex by (rule all_lists_Own)
    show ?thesis
    proof (cases "?key \<in> set (snd st)")
      case True
      let ?ps' = "update_found (\<lambda>e. p_file e = fl)
                  (\<lambda>e. e\<lparr>p_occurrences := p_occurrences e + 1, p_positions := p_positions e @ [ln]\<rparr>) ps"
      have upd: "?L (snd st) t ?ps'"
      proof -
        have "map p_file ?ps' = map p_file ps"
          by (rule map_update_found) simp
        then have "distinct (map p_file ?ps') = distinct (map p_file ps)"
          and "p_file ` set ?ps' = p_file ` set ps"
          by (simp_all flip: set_map)
        with ps True show ?thesis by simp
      qed
      show ?thesis
        using Own True all_lists_update[of "?L (snd st)", OF ex upd]
        by (simp add: add_exact_def Let_def files_tracked_def)
    next
      case False
      with ps have notin: "fl \<notin> p_file ` set ps" by auto
      have ex': "all_lists (?L (?key # snd st)) ?ex"
        using ex by (rule all_lists_mono) auto
      have new: "?L (?key # snd st) t (ps @ [\<lparr>p_file = fl, p_occurrences = 1, p_positions = [ln]\<rparr>])"
        using ps notin by auto
      show ?thesis
        using Own False all_lists_update[of "?L (?key # snd st)", OF ex' new]
        by (simp add: add_exact_def Let_def files_tracked_def)
    qed
  next
    case Inherited
    have "all_lists (\<lambda>t ps. distinct (map p_file ps) \<and> p_file ` set ps \<subseteq> insert fl S) ?ex"
      using ex by (rule all_lists_mono) auto
    with Inherited show ?thesis by (simp add: add_exact_def Let_def files_within_def)
  next
    case Undefined
    have "all_lists (\<lambda>t ps. distinct (map p_file ps) \<and> p_file ` set ps \<subseteq> insert fl S) ?ex"
      using ex by (rule all_lists_mono) auto
    with Undefined show ?thesis by (simp add: add_exact_def Let_def files_within_def)
  qed
qed

lemma add_term_files_tracked:
  assumes "files_tracked fl S st"
  shows "case add_term fl ln s st of
           Inl e \<Rightarrow> files_within (insert fl S) (snd e)
         | Inr st' \<Rightarrow> files_tracked fl S st'"
  using add_term_exact_frame[where fl = fl and ln = ln and s = s and st = st]
    assms files_tracked_within[OF assms]
  by (auto simp: files_tracked_def files_within_def split: sum.splits)

lemma index_file_files_within:
  assumes "files_within S idx" and "fst entry \<notin> S"
  shows "files_within (insert (fst entry) S) (index_file E category repo entry idx)"
proof -
  have mono: "files_within (insert (fst entry) S) idx"
    using assms(1) unfolding files_within_def by (rule all_lists_mono) auto
  have init: "files_tracked (fst entry) S (idx, [])"
    using assms unfolding files_within_def files_tracked_def all_lists_def by fastforce
  have "case index_content (fst entry) content idx of
          Inl e \<Rightarrow> files_within (insert (fst entry) S) (snd e)
        | Inr st \<Rightarrow> files_tracked (fst entry) S st" for content
    using init add_exact_files_tracked add_term_files_tracked
    by (intro index_content_invariant[where P = "files_tracked (fst entry) S"
          and Q = "\<lambda>e. files_within (insert (fst entry) S) (snd e)"]) auto
  then show ?thesis
    using mono files_tracked_within
    by (fastforce simp: index_file_def split: option.splits sum.splits)
qed

lemma fold_index_file_files_within:
  assumes "files_within S idx" and "distinct (map fst entries)" and "fst ` set entries \<inter> S = {}"
  shows "files_within (S \<union> fst ` set entries) (fold (index_file E category repo) entries idx)"
  using assms
proof (induction entries arbitrary: S idx)
  case Nil
  then show ?case by simp
next
  case (Cons entry entries)
  have "files_within (insert (fst entry) S) (index_file E category repo entry idx)"
    using Cons.prems by (intro index_file_files_within) auto
  then have "files_within (insert (fst entry) S \<union> fst ` set entries)
               (fold (index_file E category repo) entries (index_file E category repo entry idx))"
    using Cons.prems by (intro Cons.IH) auto
  then show ?case by simp
qed

lemma exact_files_distinct:
  assumes "distinct (map fst (fs_files structure))"
  shows "all_lists (\<lambda>t ps. distinct (map p_file ps)) (exactTerms (buildSearchIndex E category repo structure))"
proof -
  have "files_within {} \<lparr>exactTerms = [], terms = []\<rparr>"
    by (simp add: files_within_def all_lists_Nil)
  then have "files_within ({} \<union> fst ` set (fs_files structure)) (buildSearchIndex E category repo structure)"
    unfolding buildSearchIndex_def using assms by (intro fold_index_file_files_within) auto
  then show ?thesis
    unfolding files_within_def by (rule all_lists_mono) auto
qed

lemma add_term_distinct:
  assumes "all_lists (\<lambda>t ps. distinct (map p_file ps)) (terms (fst st))"
  shows "case add_term fl ln s st of
           Inl e \<Rightarrow> all_lists (\<lambda>t ps. distinct (map p_file ps)) (terms (snd e))
         | Inr st' \<Rightarrow> all_lists (\<lambda>t ps. distinct (map p_file ps)) (terms (fst st'))"
proof -
  let ?L = "\<lambda>t ps. distinct (map p_file ps)"
  let ?k = "toLowerCase s"
  let ?tm = "ensure_key (terms (fst st)) ?k"
  have tm: "all_lists ?L ?tm"
    using assms by (intro all_lists_ensure_key) auto
  show ?thesis
  proof (cases "js_get ?tm ?k")
    case (Own ps)
    then have ps: "distinct (map p_file ps)"
      using tm by (rule all_lists_Own)
    have upd: "?L ?k (update_found (\<lambda>e. p_file e = fl)
                  (\<lambda>e. e\<lparr>p_occurrences := p_occurrences e + 1,
                          p_positions := (if ln \<in> set (p_positions e) then p_positions e
                                          else p_positions e @ [ln])\<rparr>) ps)"
      using ps by (subst map_update_found) auto
    have new: "?L ?k (ps @ [\<lparr>p_file = fl, p_occurrences = 1, p_positions = [ln]\<rparr>])"
      if "\<not> list_ex (\<lambda>e. p_file e = fl) ps"
      using ps that by (auto simp: list_ex_iff)
    show ?thesis
      using Own all_lists_update[of ?L, OF tm upd] all_lists_update[of ?L, OF tm new]
      by (simp add: add_term_def Let_def)
  next
    case Inherited
    then show ?thesis using tm by (simp add: add_term_def Let_def)
  next
    case Undefined
    then show ?thesis using tm by (simp add: add_term_def Let_def)
  qed
qed

lemma terms_files_distinct:
  "all_lists (\<lambda>t ps. distinct (map p_file ps)) (terms (buildSearchIndex E category repo structure))"
proof (rule buildSearchIndex_invariant[where I = "\<lambda>idx. all_lists (\<lambda>t ps. distinct (map p_file ps)) (terms idx)"])
  show "all_lists (\<lambda>t ps. distinct (map p_file ps)) (terms \<lparr>exactTerms = [], terms = []\<rparr>)"
    by (simp add: all_lists_Nil)
next
  fix fl ln t and st :: index_state
  assume "all_lists (\<lambda>t ps. distinct (map p_file ps)) (terms (fst st))"
  then show "case add_exact fl ln t st of
               Inl e \<Rightarrow> all_lists (\<lambda>t ps. distinct (map p_file ps)) (terms (snd e))
             | Inr st' \<Rightarrow> all_lists (\<lambda>t ps. distinct (map p_file ps)) (terms (fst st'))"
    using add_exact_terms_frame[where fl = fl and ln = ln and t = t and st = st]
    by (auto split: sum.splits)
next
  fix fl ln s and st :: index_state
  assume "all_lists (\<lambda>t ps. distinct (map p_file ps)) (terms (fst st))"
  then show "case add_term fl ln s st of
               Inl e \<Rightarrow> all_lists (\<lambda>t ps. distinct (map p_file ps)) (terms (snd e))
             | Inr st' \<Rightarrow> all_lists (\<lambda>t ps. distinct (map p_file ps)) (terms (fst st'))"
    by (rule add_term_distinct)
qed


section \<open>Building and validating the cache\<close>

lemma saveRepoCache_frame:
  assumes "saveRepoCache E category repo cache = Inr E'"
  shows "registry E' = registry E" "path_exists E' = path_exists E" "read_file E' = read_file E"
    "stat_size E' = stat_size E" "readdir_ok E' = readdir_ok E" "globby E' = globby E"
    "revparse_HEAD E' = revparse_HEAD E" "cache_writable E' = cache_writable E"
    "js_regexp E' = js_regexp E"
    "metadata_doc E' category repo = Parsed (rc_metadata cache)"
    "searchIndex_doc E' category repo = Parsed (rc_searchIndex cache)"
  using assms by (auto simp: saveRepoCache_def split: if_splits)

lemma buildRepoCache_Some:
  assumes "buildRepoCache E category repo = (E', Some cache)"
  shows "\<exists>structure currentHash.
           scanFileStructure E category repo = Inr structure \<and>
           revparse_HEAD E category repo = Inr currentHash \<and>
           lastCommitHash (rc_metadata cache) = trim currentHash \<and>
           rc_structure cache = structure \<and>
           rc_searchIndex cache = buildSearchIndex E category repo structure \<and>
           saveRepoCache E category repo cache = Inr E'"
  using assms
  by (auto simp: buildRepoCache_def getRepositoryMetadata_def Let_def split: sum.splits)

lemma isCacheValid_iff:
  "isCacheValid E category repo \<longleftrightarrow>
     (\<exists>metadata currentHash.
        metadata_doc E category repo = Parsed metadata \<and>
        revparse_HEAD E category repo = Inr currentHash \<and>
        lastCommitHash metadata = trim currentHash)"
  by (auto simp: isCacheValid_def split: document.splits sum.splits)

lemma trim_example: "trim ''4b825dc\<newline>'' = ''4b825dc''"
  by (simp add: trim_def is_space_def)

lemma scan_env_twice:
  "scanFileStructure env_twice ''lib'' ''alpha'' = Inr \<lparr>fs_files = [(''a.ts'', \<lparr>fi_size = 7\<rparr>)]\<rparr>"
  by (simp add: scanFileStructure_def env_twice_def example_env_def)

lemma build_env_twice:
  "snd (buildRepoCache env_twice ''lib'' ''alpha'') =
     Some \<lparr>rc_metadata = \<lparr>lastCommitHash = ''4b825dc'', totalFiles = 1, totalSize = 7\<rparr>,
            rc_structure = \<lparr>fs_files = [(''a.ts'', \<lparr>fi_size = 7\<rparr>)]\<rparr>,
            rc_searchIndex =
              \<lparr>exactTerms = [(''foo'', [\<lparr>p_file = ''a.ts'', p_occurrences = 2, p_positions = [1, 1]\<rparr>])],
               terms = [(''foo'', [\<lparr>p_file = ''a.ts'', p_occurrences = 4, p_positions = [1]\<rparr>])]\<rparr>\<rparr>"
proof -
  have rp: "revparse_HEAD env_twice ''lib'' ''alpha'' = Inr ''4b825dc\<newline>''"
    and w: "cache_writable env_twice ''lib'' ''alpha''"
    by (simp_all add: env_twice_def example_env_def)
  show ?thesis
    by (simp add: buildRepoCache_def scan_env_twice getRepositoryMetadata_def rp trim_example
        index_env_twice saveRepoCache_def w Let_def)
qed

lemma buildRepoCache_frame:
  "registry (fst (buildRepoCache E category repo)) = registry E"
  "path_exists (fst (buildRepoCache E category repo)) = path_exists E"
  "read_file (fst (buildRepoCache E category repo)) = read_file E"
  "stat_size (fst (buildRepoCache E category repo)) = stat_size E"
  "readdir_ok (fst (buildRepoCache E category repo)) = readdir_ok E"
  "globby (fst (buildRepoCache E category repo)) = globby E"
  "revparse_HEAD (fst (buildRepoCache E category repo)) = revparse_HEAD E"
  "cache_writable (fst (buildRepoCache E category repo)) = cache_writable E"
  "js_regexp (fst (buildRepoCache E category repo)) = js_regexp E"
  by (auto simp: buildRepoCache_def saveRepoCache_def Let_def split: sum.splits)

lemma buildRepoCache_docs:
  assumes "snd (buildRepoCache E category repo) = Some cache"
  shows "metadata_doc (fst (buildRepoCache E category repo)) =
           (\<lambda>c r. if c = category \<and> r = repo then Parsed (rc_metadata cache) else metadata_doc E c r)"
    and "searchIndex_doc (fst (buildRepoCache E category repo)) =
           (\<lambda>c r. if c = category \<and> r = repo then Parsed (rc_searchIndex cache) else searchIndex_doc E c r)"
  using assms
  by (auto simp: buildRepoCache_def saveRepoCache_def Let_def split: sum.splits if_splits)

lemmas search_eval = searchCodeWithCache_def search_all_def search_category_def search_repo_def
  fallback_scan_def scan_file_def matchingLines_def make_match_def context_window_def
  cached_search_def exact_lookup_def exact_posting_def emit_posting_def position_records_def
  file_filter_def fuzzy_fallback_def fuzzy_term_def fuzzy_posting_def truthy_def
  isCacheValid_def loadSearchIndex_def starts_with_def js_get_def object_prototype_keys_def
  trim_def is_space_def literal_regexp_def toLowerCase_def to_lower_def lower_letters_def
  upper_letters_def digits_def Let_def

lemma search_env_ranked:
  "map (\<lambda>g. (r_file g, length (r_matches g))) (searchCodeWithCache env_ranked ''foo'' ''*'' None None) =
     [(''a.ts'', 2), (''b.ts'', 5)]"
  by (simp add: search_eval env_ranked_def example_env_def)

lemma scan_env_ranked:
  "scanFileStructure env_ranked ''lib'' ''alpha'' =
     Inr \<lparr>fs_files = [(''a.ts'', \<lparr>fi_size = 9\<rparr>), (''b.ts'', \<lparr>fi_size = 19\<rparr>)]\<rparr>"
  by (simp add: scanFileStructure_def env_ranked_def example_env_def)

lemma index_env_ranked:
  "buildSearchIndex env_ranked ''lib'' ''alpha''
       \<lparr>fs_files = [(''a.ts'', \<lparr>fi_size = 9\<rparr>), (''b.ts'', \<lparr>fi_size = 19\<rparr>)]\<rparr> =
     \<lparr>exactTerms = [(''foo'', [\<lparr>p_file = ''a.ts'', p_occurrences = 2, p_positions = [1, 3]\<rparr>,
                                \<lparr>p_file = ''b.ts'', p_occurrences = 5, p_positions = [1, 2, 3, 4, 5]\<rparr>])],
      terms = [(''foo'', [\<lparr>p_file = ''a.ts'', p_occurrences = 4, p_positions = [1, 3]\<rparr>,
                           \<lparr>p_file = ''b.ts'', p_occurrences = 10, p_positions = [1, 2, 3, 4, 5]\<rparr>])]\<rparr>"
  by (simp add: index_eval env_ranked_def example_env_def)

lemma build_env_ranked:
  "snd (buildRepoCache env_ranked ''lib'' ''alpha'') =
     Some \<lparr>rc_metadata = \<lparr>lastCommitHash = ''4b825dc'', totalFiles = 2, totalSize = 28\<rparr>,
            rc_structure = \<lparr>fs_files = [(''a.ts'', \<lparr>fi_size = 9\<rparr>), (''b.ts'', \<lparr>fi_size = 19\<rparr>)]\<rparr>,
            rc_searchIndex =
     \<lparr>exactTerms = [(''foo'', [\<lparr>p_file = ''a.ts'', p_occurrences = 2, p_positions = [1, 3]\<rparr>,
                                \<lparr>p_file = ''b.ts'', p_occurrences = 5, p_positions = [1, 2, 3, 4, 5]\<rparr>])],
      terms = [(''foo'', [\<lparr>p_file = ''a.ts'', p_occurrences = 4, p_positions = [1, 3]\<rparr>,
                           \<lparr>p_file = ''b.ts'', p_occurrences = 10, p_positions = [1, 2, 3, 4, 5]\<rparr>])]\<rparr>\<rparr>"
proof -
  have rp: "revparse_HEAD env_ranked ''lib'' ''alpha'' = Inr ''4b825dc\<newline>''"
    and w: "cache_writable env_ranked ''lib'' ''alpha''"
    by (simp_all add: env_ranked_def example_env_def fun_eq_iff)
  show ?thesis
    by (simp add: buildRepoCache_def scan_env_ranked getRepositoryMetadata_def rp trim_example
        index_env_ranked saveRepoCache_def w Let_def)
qed

lemma env_ranked_cached_fields:
  "registry env_ranked_cached = [(''lib'', [''alpha''])]"
  "path_exists env_ranked_cached = (\<lambda>c r. True)"
  "read_file env_ranked_cached =
     (\<lambda>c r. map_of [(''a.ts'', ''foo\<newline>x\<newline>foo''), (''b.ts'', ''foo\<newline>foo\<newline>foo\<newline>foo\<newline>foo'')])"
  "revparse_HEAD env_ranked_cached = (\<lambda>c r. Inr ''4b825dc\<newline>'')"
  "js_regexp env_ranked_cached = literal_regexp"
  "metadata_doc env_ranked_cached ''lib'' ''alpha'' =
     Parsed \<lparr>lastCommitHash = ''4b825dc'', totalFiles = 2, totalSize = 28\<rparr>"
  "searchIndex_doc env_ranked_cached ''lib'' ''alpha'' = Parsed
     \<lparr>exactTerms = [(''foo'', [\<lparr>p_file = ''a.ts'', p_occurrences = 2, p_positions = [1, 3]\<rparr>,
                                \<lparr>p_file = ''b.ts'', p_occurrences = 5, p_positions = [1, 2, 3, 4, 5]\<rparr>])],
      terms = [(''foo'', [\<lparr>p_file = ''a.ts'', p_occurrences = 4, p_positions = [1, 3]\<rparr>,
                           \<lparr>p_file = ''b.ts'', p_occurrences = 10, p_positions = [1, 2, 3, 4, 5]\<rparr>])]\<rparr>"
  unfolding env_ranked_cached_def buildRepoCache_frame buildRepoCache_docs[OF build_env_ranked]
  by (simp_all add: env_ranked_def example_env_def fun_eq_iff)

lemma search_env_ranked_cached:
  "map group_key (searchCodeWithCache env_ranked_cached ''foo'' ''*'' None None) =
     [(''lib'', ''alpha'', ''a.ts''), (''lib'', ''alpha'', ''a.ts''),
      (''lib'', ''alpha'', ''b.ts''), (''lib'', ''alpha'', ''b.ts''), (''lib'', ''alpha'', ''b.ts''),
      (''lib'', ''alpha'', ''b.ts''), (''lib'', ''alpha'', ''b.ts'')]"
  by (simp add: search_eval env_ranked_cached_fields group_key_def)


section \<open>Files that are indexed\<close>

text \<open>
  A loop whose body returns normally under an invariant \<open>I\<close>, establishes \<open>G x\<close> at the
  element \<open>x\<close> and keeps every \<open>G x\<close> afterwards, returns normally with all of them.
\<close>

lemma for_each_preserved:
  assumes keep: "\<And>x s s'. x \<in> set xs \<Longrightarrow> G s \<Longrightarrow> f x s = Inr s' \<Longrightarrow> G s'"
  shows "for_each f xs s = Inr s' \<Longrightarrow> G s \<Longrightarrow> G s'"
  using keep
proof (induction xs arbitrary: s)
  case Nil
  then show ?case by simp
next
  case (Cons x xs)
  from Cons.prems(1) obtain s1 where s1: "f x s = Inr s1" and rest: "for_each f xs s1 = Inr s'"
    by (auto split: sum.splits)
  have "G s1"
    using Cons.prems(2) s1 Cons.prems(3)[of x s s1] by simp
  moreover have "G b" if "y \<in> set xs" "G a" "f y a = Inr b" for y a b
    using that Cons.prems(3)[of y a b] by simp
  ultimately show ?case
    using Cons.IH[OF rest] by blast
qed

lemma for_each_established:
  assumes "I s"
    and step: "\<And>x s. x \<in> set xs \<Longrightarrow> I s \<Longrightarrow> \<exists>s'. f x s = Inr s' \<and> I s' \<and> G x s'"
    and keep: "\<And>x y s s'. x \<in> set xs \<Longrightarrow> y \<in> set xs \<Longrightarrow> G x s \<Longrightarrow> f y s = Inr s' \<Longrightarrow> G x s'"
  shows "\<exists>s'. for_each f xs s = Inr s' \<and> I s' \<and> (\<forall>x \<in> set xs. G x s')"
  using assms
proof (induction xs arbitrary: s)
  case Nil
  then show ?case by simp
next
  case (Cons x xs)
  from Cons.prems(1,2) obtain s1 where s1: "f x s = Inr s1" "I s1" "G x s1"
    by (meson list.set_intros(1))
  have "\<exists>s'. for_each f xs s1 = Inr s' \<and> I s' \<and> (\<forall>y \<in> set xs. G y s')"
  proof (rule Cons.IH[OF s1(2)])
    show "\<exists>s'. f y s = Inr s' \<and> I s' \<and> G y s'" if "y \<in> set xs" "I s" for y s
      using that Cons.prems(2) by simp
    show "G y s'" if "y \<in> set xs" "z \<in> set xs" "G y s" "f z s = Inr s'" for y z s s'
      using that Cons.prems(3)[of y z s s'] by simp
  qed
  then obtain s' where s': "for_each f xs s1 = Inr s'" "I s'" "\<forall>y \<in> set xs. G y s'"
    by blast
  have "G x s'"
  proof (rule for_each_preserved[where G = "G x" and f = f and xs = xs, OF _ s'(1) s1(3)])
    show "G x t'" if "z \<in> set xs" "G x t" "f z t = Inr t'" for z t t'
      using that Cons.prems(3)[of x z t t'] by simp
  qed
  with s1(1) s' show ?case by simp
qed

lemma has_posting_ensure_key:
  "has_posting ix t fl \<Longrightarrow> has_posting (ensure_key ix k) t fl"
  by (auto simp: has_posting_def ensure_key_def split: js_prop.splits)

lemma js_get_Own_map_of: "js_get ix k = Own ps \<longleftrightarrow> map_of ix k = Some ps"
  by (auto simp: js_get_def split: option.splits)

lemma has_posting_update:
  assumes "has_posting ix t fl"
    and "\<And>ps. t = k \<Longrightarrow> map_of ix k = Some ps \<Longrightarrow> fl \<in> p_file ` set ps \<Longrightarrow> fl \<in> p_file ` set v"
  shows "has_posting (AList.update k v ix) t fl"
  using assms by (auto simp: has_posting_def update_conv')

lemma set_update_found_files:
  "p_file ` set (update_found pred (\<lambda>e. e\<lparr>p_occurrences := g e, p_positions := h e\<rparr>) ps) = p_file ` set ps"
proof -
  have "map p_file (update_found pred (\<lambda>e. e\<lparr>p_occurrences := g e, p_positions := h e\<rparr>) ps) = map p_file ps"
    by (rule map_update_found) simp
  then show ?thesis by (metis set_map)
qed

lemma add_exact_keeps_posting:
  assumes "has_posting (exactTerms (fst st)) t fl"
  shows "case add_exact fl' ln t' st of
           Inl e \<Rightarrow> has_posting (exactTerms (snd e)) t fl
         | Inr st' \<Rightarrow> has_posting (exactTerms (fst st')) t fl"
proof -
  let ?ex = "ensure_key (exactTerms (fst st)) t'"
  have ex: "has_posting ?ex t fl"
    using assms by (rule has_posting_ensure_key)
  show ?thesis
  proof (cases "js_get ?ex t'")
    case (Own ps)
    then have m: "map_of ?ex t' = Some ps" by (simp add: js_get_Own_map_of)
    have new: "has_posting (AList.update t' (ps @ [\<lparr>p_file = fl', p_occurrences = 1, p_positions = [ln]\<rparr>]) ?ex) t fl"
      using ex m by (intro has_posting_update) auto
    have upd: "has_posting (AList.update t'
                 (update_found (\<lambda>e. p_file e = fl')
                    (\<lambda>e. e\<lparr>p_occurrences := p_occurrences e + 1, p_positions := p_positions e @ [ln]\<rparr>) ps) ?ex) t fl"
      using ex m by (intro has_posting_update) (auto simp: set_update_found_files)
    show ?thesis
      using Own new upd by (simp add: add_exact_def Let_def)
  next
    case Inherited
    then show ?thesis using ex by (simp add: add_exact_def Let_def)
  next
    case Undefined
    then show ?thesis using ex by (simp add: add_exact_def Let_def)
  qed
qed

lemma add_term_keeps_posting:
  assumes "has_posting (terms (fst st)) k fl"
  shows "case add_term fl' ln s st of
           Inl e \<Rightarrow> has_posting (terms (snd e)) k fl
         | Inr st' \<Rightarrow> has_posting (terms (fst st')) k fl"
proof -
  let ?k = "toLowerCase s"
  let ?tm = "ensure_key (terms (fst st)) ?k"
  let ?upd = "\<lambda>e. e\<lparr>p_occurrences := p_occurrences e + 1,
                      p_positions := (if ln \<in> set (p_positions e) then p_positions e
                                      else p_positions e @ [ln])\<rparr>"
  have tm: "has_posting ?tm k fl"
    using assms by (rule has_posting_ensure_key)
  show ?thesis
  proof (cases "js_get ?tm ?k")
    case (Own ps)
    then have m: "map_of ?tm ?k = Some ps" by (simp add: js_get_Own_map_of)
    have new: "has_posting (AList.update ?k (ps @ [\<lparr>p_file = fl', p_occurrences = 1, p_positions = [ln]\<rparr>]) ?tm) k fl"
      using tm m by (intro has_posting_update) auto
    have "p_file ` set (update_found (\<lambda>e. p_file e = fl') ?upd ps) = p_file ` set ps"
      by (rule set_update_found_files)
    then have upd: "has_posting (AList.update ?k (update_found (\<lambda>e. p_file e = fl') ?upd ps) ?tm) k fl"
      using tm m by (intro has_posting_update) auto
    show ?thesis
      using Own new upd by (simp add: add_term_def Let_def)
  next
    case Inherited
    then show ?thesis using tm by (simp add: add_term_def Let_def)
  next
    case Undefined
    then show ?thesis using tm by (simp add: add_term_def Let_def)
  qed
qed

lemma add_exact_keeps_indexed:
  assumes "indexed (fst st) t fl"
  shows "case add_exact fl' ln t' st of
           Inl e \<Rightarrow> indexed (snd e) t fl
         | Inr st' \<Rightarrow> indexed (fst st') t fl"
  using assms add_exact_keeps_posting[where st = st and t = t and fl = fl and fl' = fl' and ln = ln and t' = t']
    add_exact_terms_frame[where fl = fl' and ln = ln and t = t' and st = st]
  by (cases "add_exact fl' ln t' st") (auto simp: indexed_def)

lemma add_term_keeps_indexed:
  assumes "indexed (fst st) t fl"
  shows "case add_term fl' ln s st of
           Inl e \<Rightarrow> indexed (snd e) t fl
         | Inr st' \<Rightarrow> indexed (fst st') t fl"
proof (cases "add_term fl' ln s st")
  case (Inl e)
  have "has_posting (terms (snd e)) k fl" if "has_posting (terms (fst st)) k fl" for k
    using add_term_keeps_posting[OF that, where fl' = fl' and ln = ln and s = s] Inl by simp
  moreover have "exactTerms (snd e) = exactTerms (fst st)"
    using add_term_exact_frame[where fl = fl' and ln = ln and s = s and st = st] Inl by simp
  ultimately show ?thesis
    using assms Inl by (simp add: indexed_def)
next
  case (Inr st')
  have "has_posting (terms (fst st')) k fl" if "has_posting (terms (fst st)) k fl" for k
    using add_term_keeps_posting[OF that, where fl' = fl' and ln = ln and s = s] Inr by simp
  moreover have "exactTerms (fst st') = exactTerms (fst st)"
    using add_term_exact_frame[where fl = fl' and ln = ln and s = s and st = st] Inr by simp
  ultimately show ?thesis
    using assms Inr by (simp add: indexed_def)
qed

lemma index_content_keeps_indexed:
  assumes "indexed idx t fl"
  shows "case index_content fl' content idx of
           Inl e \<Rightarrow> indexed (snd e) t fl
         | Inr st \<Rightarrow> indexed (fst st) t fl"
proof (rule index_content_invariant[where P = "\<lambda>st. indexed (fst st) t fl"
      and Q = "\<lambda>e. indexed (snd e) t fl"])
  show "indexed (fst (idx, [])) t fl"
    using assms by simp
next
  fix ln t' and st :: index_state
  assume "indexed (fst st) t fl"
  then show "case add_exact fl' ln t' st of
           Inl e \<Rightarrow> indexed (snd e) t fl
         | Inr st' \<Rightarrow> indexed (fst st') t fl"
    by (rule add_exact_keeps_indexed)
next
  fix ln s and st :: index_state
  assume "indexed (fst st) t fl"
  then show "case add_term fl' ln s st of
           Inl e \<Rightarrow> indexed (snd e) t fl
         | Inr st' \<Rightarrow> indexed (fst st') t fl"
    by (rule add_term_keeps_indexed)
qed

lemma index_file_keeps_indexed:
  assumes "indexed idx t fl"
  shows "indexed (index_file E category repo entry idx) t fl"
proof (cases "read_file E category repo (fst entry)")
  case None
  then show ?thesis using assms by (simp add: index_file_def)
next
  case (Some content)
  then show ?thesis
    using assms index_content_keeps_indexed[OF assms, where fl' = "fst entry" and content = content]
    by (cases "index_content (fst entry) content idx") (auto simp: index_file_def)
qed

lemma index_identifier_keeps_indexed:
  assumes "indexed (fst st) t fl" and "index_identifier fl' ln t' st = Inr st'"
  shows "indexed (fst st') t fl"
proof -
  have "case index_identifier fl' ln t' st of
          Inl e \<Rightarrow> indexed (snd e) t fl
        | Inr st' \<Rightarrow> indexed (fst st') t fl"
  proof (rule index_identifier_invariant[where P = "\<lambda>st. indexed (fst st) t fl"
        and Q = "\<lambda>e. indexed (snd e) t fl", OF assms(1)])
    show "case add_exact fl' ln t' st of
           Inl e \<Rightarrow> indexed (snd e) t fl
         | Inr st' \<Rightarrow> indexed (fst st') t fl"
      using assms(1) by (rule add_exact_keeps_indexed)
  next
    fix s and st' :: index_state
    assume "indexed (fst st') t fl"
    then show "case add_term fl' ln s st' of
           Inl e \<Rightarrow> indexed (snd e) t fl
         | Inr st'' \<Rightarrow> indexed (fst st'') t fl"
      by (rule add_term_keeps_indexed)
  qed
  with assms(2) show ?thesis by simp
qed

lemma js_get_ensure_key:
  "k \<notin> set object_prototype_keys \<Longrightarrow> \<exists>ps. js_get (ensure_key ix k) k = Own ps"
  by (auto simp: ensure_key_def js_get_def map_add_def split: option.splits)

lemma termFileKey_inj: "termFileKey t fl = termFileKey t' fl \<longleftrightarrow> t = t'"
  by (simp add: termFileKey_def)

lemma add_exact_establishes:
  assumes ok: "processed_ok fl st" and t: "t \<notin> set object_prototype_keys"
  shows "\<exists>st'. add_exact fl ln t st = Inr st' \<and> processed_ok fl st' \<and>
               has_posting (exactTerms (fst st')) t fl"
proof -
  let ?ex = "ensure_key (exactTerms (fst st)) t"
  from js_get_ensure_key[OF t] obtain ps where ps: "js_get ?ex t = Own ps"
    by blast
  then have m: "map_of ?ex t = Some ps" by (simp add: js_get_Own_map_of)
  have "\<exists>st'. add_exact fl ln t st = Inr st'"
    using ps by (simp add: add_exact_def Let_def)
  then obtain st' where st': "add_exact fl ln t st = Inr st'" ..
  have keep: "has_posting (exactTerms (fst st')) u fl" if "has_posting (exactTerms (fst st)) u fl" for u
    using add_exact_keeps_posting[OF that, where fl' = fl and ln = ln and t' = t] st' by simp
  show ?thesis
  proof (cases "termFileKey t fl \<in> set (snd st)")
    case True
    then have "snd st' = snd st"
      using st' ps by (auto simp: add_exact_def Let_def)
    moreover from True ok have "has_posting (exactTerms (fst st)) t fl"
      by (simp add: processed_ok_def)
    ultimately show ?thesis
      using st' ok keep by (auto simp: processed_ok_def)
  next
    case False
    then have new: "exactTerms (fst st') =
        AList.update t (ps @ [\<lparr>p_file = fl, p_occurrences = 1, p_positions = [ln]\<rparr>]) ?ex"
      and proc: "snd st' = termFileKey t fl # snd st"
      using st' ps by (auto simp: add_exact_def Let_def)
    have here: "has_posting (exactTerms (fst st')) t fl"
      unfolding new by (simp add: has_posting_def update_conv')
    have "processed_ok fl st'"
      unfolding processed_ok_def proc
      using here keep ok by (auto simp: processed_ok_def termFileKey_inj)
    with st' here show ?thesis by simp
  qed
qed

lemma add_term_establishes:
  assumes "toLowerCase s \<notin> set object_prototype_keys"
  shows "\<exists>st'. add_term fl ln s st = Inr st' \<and> exactTerms (fst st') = exactTerms (fst st) \<and>
               snd st' = snd st \<and> has_posting (terms (fst st')) (toLowerCase s) fl"
proof -
  let ?k = "toLowerCase s"
  let ?tm = "ensure_key (terms (fst st)) ?k"
  let ?upd = "\<lambda>e. e\<lparr>p_occurrences := p_occurrences e + 1,
                      p_positions := (if ln \<in> set (p_positions e) then p_positions e
                                      else p_positions e @ [ln])\<rparr>"
  from js_get_ensure_key[OF assms] obtain ps where ps: "js_get ?tm ?k = Own ps"
    by blast
  show ?thesis
  proof (cases "list_ex (\<lambda>e. p_file e = fl) ps")
    case True
    then have "fl \<in> p_file ` set ps"
      by (auto simp: list_ex_iff)
    then have "fl \<in> p_file ` set (update_found (\<lambda>e. p_file e = fl) ?upd ps)"
      by (simp only: set_update_found_files)
    then have "has_posting (AList.update ?k (update_found (\<lambda>e. p_file e = fl) ?upd ps) ?tm) ?k fl"
      by (simp add: has_posting_def update_conv')
    with True ps show ?thesis
      by (simp add: add_term_def Let_def)
  next
    case False
    have "has_posting (AList.update ?k (ps @ [\<lparr>p_file = fl, p_occurrences = 1, p_positions = [ln]\<rparr>]) ?tm) ?k fl"
      by (simp add: has_posting_def update_conv')
    with False ps show ?thesis
      by (simp add: add_term_def Let_def)
  qed
qed

lemma add_terms_establish:
  assumes "\<forall>s \<in> set ss. toLowerCase s \<notin> set object_prototype_keys"
  shows "\<exists>st'. for_each (add_term fl ln) ss st = Inr st' \<and>
               (exactTerms (fst st') = exactTerms (fst st) \<and> snd st' = snd st) \<and>
               (\<forall>s \<in> set ss. has_posting (terms (fst st')) (toLowerCase s) fl)"
proof (rule for_each_established[where I = "\<lambda>s. exactTerms (fst s) = exactTerms (fst st) \<and> snd s = snd st"
      and G = "\<lambda>s st'. has_posting (terms (fst st')) (toLowerCase s) fl"])
  show "exactTerms (fst st) = exactTerms (fst st) \<and> snd st = snd st"
    by simp
next
  fix s and a :: index_state
  assume "s \<in> set ss" and a: "exactTerms (fst a) = exactTerms (fst st) \<and> snd a = snd st"
  with assms have "toLowerCase s \<notin> set object_prototype_keys"
    by simp
  from add_term_establishes[OF this, where fl = fl and ln = ln and st = a] a
  show "\<exists>s'. add_term fl ln s a = Inr s' \<and>
             (exactTerms (fst s') = exactTerms (fst st) \<and> snd s' = snd st) \<and>
             has_posting (terms (fst s')) (toLowerCase s) fl"
    by auto
next
  fix s u and a b :: index_state
  assume "has_posting (terms (fst a)) (toLowerCase s) fl" and "add_term fl ln u a = Inr b"
  then show "has_posting (terms (fst b)) (toLowerCase s) fl"
    using add_term_keeps_posting[where st = a and k = "toLowerCase s" and fl = fl and fl' = fl
        and ln = ln and s = u]
    by simp
qed

lemma index_identifier_establishes:
  assumes ok: "processed_ok fl st" and clean: "\<not> skipped_term t \<longrightarrow> \<not> throwing_term t"
  shows "\<exists>st'. index_identifier fl ln t st = Inr st' \<and> processed_ok fl st' \<and>
               (\<not> skipped_term t \<longrightarrow> indexed (fst st') t fl)"
proof (cases "skipped_term t")
  case True
  then show ?thesis using ok by (simp add: index_identifier_def)
next
  case False
  with clean have t: "t \<notin> set object_prototype_keys"
    and ss: "\<forall>s \<in> set (allTerms t). toLowerCase s \<notin> set object_prototype_keys"
    by (auto simp: throwing_term_def list_ex_iff)
  from add_exact_establishes[OF ok t, where ln = ln] obtain st1
    where st1: "add_exact fl ln t st = Inr st1" "processed_ok fl st1"
      "has_posting (exactTerms (fst st1)) t fl"
    by blast
  from add_terms_establish[OF ss, where fl = fl and ln = ln and st = st1] obtain st'
    where st': "for_each (add_term fl ln) (allTerms t) st1 = Inr st'"
      "exactTerms (fst st') = exactTerms (fst st1)" "snd st' = snd st1"
      "\<forall>s \<in> set (allTerms t). has_posting (terms (fst st')) (toLowerCase s) fl"
    by blast
  from st1(2,3) st'(2,3,4) have "processed_ok fl st'" "indexed (fst st') t fl"
    by (simp_all add: processed_ok_def indexed_def)
  with False st1(1) st'(1) show ?thesis
    by (simp add: index_identifier_def)
qed

lemma index_line_establishes:
  assumes ok: "processed_ok fl st"
    and clean: "\<forall>t \<in> set (identifiers (snd il)). \<not> skipped_term t \<longrightarrow> \<not> throwing_term t"
  shows "\<exists>st'. index_line fl il st = Inr st' \<and> processed_ok fl st' \<and>
               (\<forall>t \<in> set (identifiers (snd il)). \<not> skipped_term t \<longrightarrow> indexed (fst st') t fl)"
  unfolding index_line_def
proof (rule for_each_established[where I = "processed_ok fl"
      and G = "\<lambda>t st'. \<not> skipped_term t \<longrightarrow> indexed (fst st') t fl", OF ok])
  fix t and s :: index_state
  assume "t \<in> set (identifiers (snd il))" "processed_ok fl s"
  then show "\<exists>s'. index_identifier fl (fst il + 1) t s = Inr s' \<and> processed_ok fl s' \<and>
                  (\<not> skipped_term t \<longrightarrow> indexed (fst s') t fl)"
    using clean by (intro index_identifier_establishes) auto
next
  fix t u and s s' :: index_state
  assume "\<not> skipped_term t \<longrightarrow> indexed (fst s) t fl"
    and "index_identifier fl (fst il + 1) u s = Inr s'"
  then show "\<not> skipped_term t \<longrightarrow> indexed (fst s') t fl"
    using index_identifier_keeps_indexed[where st = s and t = t and fl = fl and fl' = fl
        and ln = "fst il + 1" and t' = u and st' = s']
    by blast
qed

lemma index_line_keeps_indexed:
  assumes "indexed (fst st) t fl" and "index_line fl' il st = Inr st'"
  shows "indexed (fst st') t fl"
proof (rule for_each_preserved[where G = "\<lambda>st. indexed (fst st) t fl"
      and f = "index_identifier fl' (fst il + 1)" and xs = "identifiers (snd il)",
      OF _ assms(2)[unfolded index_line_def] assms(1)])
  fix u and s s' :: index_state
  assume "indexed (fst s) t fl" "index_identifier fl' (fst il + 1) u s = Inr s'"
  then show "indexed (fst s') t fl"
    by (rule index_identifier_keeps_indexed)
qed

lemma index_content_establishes:
  assumes clean: "indexes_cleanly content"
  shows "\<exists>st. index_content fl content idx = Inr st \<and>
              (\<forall>line \<in> set (split_on (CHR ''\<newline>'') content). \<forall>t \<in> set (identifiers line).
                 \<not> skipped_term t \<longrightarrow> indexed (fst st) t fl)"
proof -
  let ?lines = "split_on (CHR ''\<newline>'') content"
  let ?G = "\<lambda>(il :: nat \<times> string) (st :: index_state). \<forall>t \<in> set (identifiers (snd il)).
              \<not> skipped_term t \<longrightarrow> indexed (fst st) t fl"
  have init: "processed_ok fl (idx, [])"
    by (simp add: processed_ok_def)
  have "\<exists>st. for_each (index_line fl) (enumerate 0 ?lines) (idx, []) = Inr st \<and>
             processed_ok fl st \<and> (\<forall>il \<in> set (enumerate 0 ?lines). ?G il st)"
  proof (rule for_each_established[where I = "processed_ok fl" and G = ?G, OF init])
    fix il :: "nat \<times> string" and s :: index_state
    assume il: "il \<in> set (enumerate 0 ?lines)" and s: "processed_ok fl s"
    from il have "fst il < length ?lines" and "snd il = ?lines ! fst il"
      by (auto simp: in_set_enumerate_eq)
    then have "snd il \<in> set ?lines"
      by (simp only: nth_mem)
    with clean have "\<forall>t \<in> set (identifiers (snd il)). \<not> skipped_term t \<longrightarrow> \<not> throwing_term t"
      by (simp add: indexes_cleanly_def)
    from index_line_establishes[OF s this]
    show "\<exists>s'. index_line fl il s = Inr s' \<and> processed_ok fl s' \<and> ?G il s'" .
  next
    fix il jl :: "nat \<times> string" and s s' :: index_state
    assume "?G il s" and "index_line fl jl s = Inr s'"
    then show "?G il s'"
      using index_line_keeps_indexed[where st = s and fl = fl and fl' = fl and il = jl and st' = s']
      by blast
  qed
  then obtain st where st: "index_content fl content idx = Inr st"
    and all: "\<forall>il \<in> set (enumerate 0 ?lines). ?G il st"
    unfolding index_content_def by blast
  have "indexed (fst st) t fl"
    if "line \<in> set ?lines" "t \<in> set (identifiers line)" "\<not> skipped_term t" for line t
  proof -
    from that(1) obtain i where "i < length ?lines" "?lines ! i = line"
      by (auto simp: in_set_conv_nth)
    then have "(i, line) \<in> set (enumerate 0 ?lines)"
      by (simp add: in_set_enumerate_eq)
    with all have "?G (i, line) st" ..
    with that(2,3) show ?thesis by simp
  qed
  with st show ?thesis by blast
qed

lemma fold_established:
  assumes "x \<in> set xs" and "\<And>s. G (f x s)" and "\<And>y s. G s \<Longrightarrow> G (f y s)"
  shows "G (fold f xs s)"
  using assms(1)
proof (induction xs arbitrary: s)
  case Nil
  then show ?case by simp
next
  case (Cons y ys)
  show ?case
  proof (cases "x \<in> set ys")
    case True
    then show ?thesis using Cons.IH by simp
  next
    case False
    with Cons.prems have "y = x" by simp
    have "G (fold f ys (f x s))"
      using assms(2)[of s] assms(3) by (rule fold_invariant[where I = G])
    with \<open>y = x\<close> show ?thesis by simp
  qed
qed

lemma buildSearchIndex_indexes_file:
  assumes entry: "(fl, info) \<in> set (fs_files structure)"
    and size: "fi_size info \<le> 1024 * 1024" and ext: "allowed_extension fl"
    and content: "read_file E category repo fl = Some content"
    and clean: "indexes_cleanly content"
    and line: "line \<in> set (split_on (CHR ''\<newline>'') content)"
    and t: "t \<in> set (identifiers line)" "\<not> skipped_term t"
  shows "indexed (buildSearchIndex E category repo structure) t fl"
  unfolding buildSearchIndex_def
proof (rule fold_established[where G = "\<lambda>idx. indexed idx t fl", OF entry])
  fix idx :: SearchIndex
  from index_content_establishes[OF clean, where fl = fl and idx = idx] line t obtain st
    where "index_content fl content idx = Inr st" "indexed (fst st) t fl"
    by blast
  then show "indexed (index_file E category repo (fl, info) idx) t fl"
    using size ext content by (simp add: index_file_def)
next
  fix y :: "string \<times> file_info" and idx :: SearchIndex
  assume "indexed idx t fl"
  then show "indexed (index_file E category repo y idx) t fl"
    by (rule index_file_keeps_indexed)
qed


section \<open>The postings of one file\<close>

text \<open>
  A loop whose body returns normally and extends what the invariant \<open>K\<close> records by
  \<open>g x\<close> returns normally with the whole record.
\<close>

lemma for_each_prefix:
  assumes "K pre s"
    and "\<And>pre x s. x \<in> set xs \<Longrightarrow> K pre s \<Longrightarrow> \<exists>s'. f x s = Inr s' \<and> K (pre @ g x) s'"
  shows "\<exists>s'. for_each f xs s = Inr s' \<and> K (pre @ concat (map g xs)) s'"
  using assms
proof (induction xs arbitrary: pre s)
  case Nil
  then show ?case by simp
next
  case (Cons x xs)
  from Cons.prems obtain s1 where s1: "f x s = Inr s1" "K (pre @ g x) s1"
    by (meson list.set_intros(1))
  have "\<exists>s'. for_each f xs s1 = Inr s' \<and> K ((pre @ g x) @ concat (map g xs)) s'"
  proof (rule Cons.IH[OF s1(2)])
    show "\<exists>s'. f y s = Inr s' \<and> K (pre @ g y) s'" if "y \<in> set xs" "K pre s" for pre y s
      using that Cons.prems(2)[of y pre s] by simp
  qed
  with s1(1) show ?case by simp
qed

lemma map_of_ensure_key:
  "map_of (ensure_key ix k) k' = (if k' = k \<and> js_get ix k = Undefined then Some [] else map_of ix k')"
  by (auto simp: ensure_key_def js_get_def map_add_def split: js_prop.splits option.splits if_splits)

lemma js_get_ensure_key_value:
  "k \<notin> set object_prototype_keys \<Longrightarrow>
     js_get (ensure_key ix k) k = Own (case map_of ix k of None \<Rightarrow> [] | Some ps \<Rightarrow> ps)"
  by (auto simp: ensure_key_def js_get_def map_add_def split: option.splits)

lemma file_postings_update:
  "file_postings fl (AList.update k v (ensure_key ix k)) k' =
     (if k' = k then filter (\<lambda>p. p_file p = fl) v else file_postings fl ix k')"
  by (simp add: file_postings_def update_conv' map_of_ensure_key)

lemma file_postings_ensure_key:
  "file_postings fl (ensure_key ix k) k' = file_postings fl ix k'"
  by (simp add: file_postings_def map_of_ensure_key js_get_def split: option.splits)

lemma filter_update_found:
  assumes "\<And>x. P x \<Longrightarrow> P (f x)"
  shows "filter P (update_found P f ps) = (case filter P ps of [] \<Rightarrow> [] | x # xs \<Rightarrow> f x # xs)"
  using assms by (induction ps) auto

lemma filter_update_found_other:
  assumes "\<And>x. Q (f x) = Q x" and "\<And>x. P x \<Longrightarrow> \<not> Q x"
  shows "filter Q (update_found P f ps) = filter Q ps"
  using assms by (induction ps) auto

lemma token_lines_append: "token_lines t (xs @ ys) = token_lines t xs @ token_lines t ys"
  by (simp add: token_lines_def)

lemma first_occurrences_snoc:
  "first_occurrences (xs @ [x]) =
     (if x \<in> set (first_occurrences xs) then first_occurrences xs else first_occurrences xs @ [x])"
  by (simp add: first_occurrences_def)


text \<open>The updates made for another file leave the postings of \<open>fl\<close> as they are.\<close>

lemma add_exact_other_file:
  assumes "fl' \<noteq> fl"
  shows "case add_exact fl' ln t st of
           Inl e \<Rightarrow> file_postings fl (exactTerms (snd e)) = file_postings fl (exactTerms (fst st)) \<and>
                    terms (snd e) = terms (fst st)
         | Inr st' \<Rightarrow> file_postings fl (exactTerms (fst st')) = file_postings fl (exactTerms (fst st)) \<and>
                    terms (fst st') = terms (fst st)"
proof -
  let ?ex = "ensure_key (exactTerms (fst st)) t"
  let ?upd = "\<lambda>e. e\<lparr>p_occurrences := p_occurrences e + 1, p_positions := p_positions e @ [ln]\<rparr>"
  have same: "file_postings fl ?ex = file_postings fl (exactTerms (fst st))"
    by (simp add: fun_eq_iff file_postings_ensure_key)
  show ?thesis
  proof (cases "js_get ?ex t")
    case (Own ps)
    then have m: "map_of ?ex t = Some ps"
      by (auto simp: js_get_def split: option.splits if_splits)
    then have here: "file_postings fl ?ex t = filter (\<lambda>p. p_file p = fl) ps"
      by (simp add: file_postings_def)
    have "filter (\<lambda>p. p_file p = fl) (update_found (\<lambda>e. p_file e = fl') ?upd ps) =
            filter (\<lambda>p. p_file p = fl) ps"
      using assms by (intro filter_update_found_other) auto
    then have upd: "file_postings fl (AList.update t (update_found (\<lambda>e. p_file e = fl') ?upd ps) ?ex) =
            file_postings fl (exactTerms (fst st))"
      using here same by (auto simp: fun_eq_iff file_postings_def update_conv')
    have new: "file_postings fl (AList.update t (ps @ [\<lparr>p_file = fl', p_occurrences = 1, p_positions = [ln]\<rparr>]) ?ex) =
            file_postings fl (exactTerms (fst st))"
      using here same assms by (auto simp: fun_eq_iff file_postings_def update_conv')
    show ?thesis
      using Own upd new by (simp add: add_exact_def Let_def)
  next
    case Inherited
    then show ?thesis using same by (simp add: add_exact_def Let_def)
  next
    case Undefined
    then show ?thesis using same by (simp add: add_exact_def Let_def)
  qed
qed

lemma add_term_other_file:
  assumes "fl' \<noteq> fl"
  shows "case add_term fl' ln s st of
           Inl e \<Rightarrow> file_postings fl (terms (snd e)) = file_postings fl (terms (fst st)) \<and>
                    exactTerms (snd e) = exactTerms (fst st)
         | Inr st' \<Rightarrow> file_postings fl (terms (fst st')) = file_postings fl (terms (fst st)) \<and>
                    exactTerms (fst st') = exactTerms (fst st)"
proof -
  let ?k = "toLowerCase s"
  let ?tm = "ensure_key (terms (fst st)) ?k"
  let ?upd = "\<lambda>e. e\<lparr>p_occurrences := p_occurrences e + 1,
                      p_positions := (if ln \<in> set (p_positions e) then p_positions e
                                      else p_positions e @ [ln])\<rparr>"
  have same: "file_postings fl ?tm = file_postings fl (terms (fst st))"
    by (simp add: fun_eq_iff file_postings_ensure_key)
  show ?thesis
  proof (cases "js_get ?tm ?k")
    case (Own ps)
    then have m: "map_of ?tm ?k = Some ps"
      by (auto simp: js_get_def split: option.splits if_splits)
    then have here: "file_postings fl ?tm ?k = filter (\<lambda>p. p_file p = fl) ps"
      by (simp add: file_postings_def)
    have "filter (\<lambda>p. p_file p = fl) (update_found (\<lambda>e. p_file e = fl') ?upd ps) =
            filter (\<lambda>p. p_file p = fl) ps"
      using assms by (intro filter_update_found_other) auto
    then have upd: "file_postings fl (AList.update ?k (update_found (\<lambda>e. p_file e = fl') ?upd ps) ?tm) =
            file_postings fl (terms (fst st))"
      using here same by (auto simp: fun_eq_iff file_postings_def update_conv')
    have new: "file_postings fl (AList.update ?k (ps @ [\<lparr>p_file = fl', p_occurrences = 1, p_positions = [ln]\<rparr>]) ?tm) =
            file_postings fl (terms (fst st))"
      using here same assms by (auto simp: fun_eq_iff file_postings_def update_conv')
    show ?thesis
      using Own upd new by (simp add: add_term_def Let_def)
  next
    case Inherited
    then show ?thesis using same by (simp add: add_term_def Let_def)
  next
    case Undefined
    then show ?thesis using same by (simp add: add_term_def Let_def)
  qed
qed

lemma index_file_other_file:
  assumes "fst entry \<noteq> fl"
  shows "file_postings fl (exactTerms (index_file E category repo entry idx)) = file_postings fl (exactTerms idx) \<and>
         file_postings fl (terms (index_file E category repo entry idx)) = file_postings fl (terms idx)"
proof (cases "read_file E category repo (fst entry)")
  case None
  then show ?thesis by (simp add: index_file_def)
next
  case (Some content)
  let ?P = "\<lambda>i. file_postings fl (exactTerms i) = file_postings fl (exactTerms idx) \<and>
                 file_postings fl (terms i) = file_postings fl (terms idx)"
  have "case index_content (fst entry) content idx of Inl e \<Rightarrow> ?P (snd e) | Inr st \<Rightarrow> ?P (fst st)"
  proof (rule index_content_invariant[where P = "\<lambda>st. ?P (fst st)" and Q = "\<lambda>e. ?P (snd e)"])
    show "?P (fst (idx, []))" by simp
  next
    fix ln t and st :: index_state
    assume "?P (fst st)"
    then show "case add_exact (fst entry) ln t st of Inl e \<Rightarrow> ?P (snd e) | Inr st' \<Rightarrow> ?P (fst st')"
      using add_exact_other_file[OF assms, where ln = ln and t = t and st = st]
      by (cases "add_exact (fst entry) ln t st") auto
  next
    fix ln s and st :: index_state
    assume "?P (fst st)"
    then show "case add_term (fst entry) ln s st of Inl e \<Rightarrow> ?P (snd e) | Inr st' \<Rightarrow> ?P (fst st')"
      using add_term_other_file[OF assms, where ln = ln and s = s and st = st]
      by (cases "add_term (fst entry) ln s st") auto
  qed
  then show ?thesis
    using Some by (cases "index_content (fst entry) content idx") (auto simp: index_file_def)
qed

lemma fold_index_file_other_files:
  assumes "fl \<notin> fst ` set entries"
  shows "file_postings fl (exactTerms (fold (index_file E category repo) entries idx)) = file_postings fl (exactTerms idx) \<and>
         file_postings fl (terms (fold (index_file E category repo) entries idx)) = file_postings fl (terms idx)"
  using assms
proof (induction entries arbitrary: idx)
  case Nil
  then show ?case by simp
next
  case (Cons entry entries)
  from Cons.prems have "fst entry \<noteq> fl" and rest: "fl \<notin> fst ` set entries"
    by auto
  from index_file_other_file[OF this(1), where E = E and category = category and repo = repo and idx = idx]
    Cons.IH[OF rest, where idx = "index_file E category repo entry idx"]
  show ?case by simp
qed


lemma indexed_tokens_snoc:
  "indexed_tokens (toks @ [(ln, t)]) =
     (if skipped_term t then indexed_tokens toks else indexed_tokens toks @ [(ln, t)])"
  by (simp add: indexed_tokens_def)

lemma token_lines_snoc:
  "token_lines t' (toks @ [(ln, t)]) = (if t = t' then token_lines t' toks @ [ln] else token_lines t' toks)"
  by (simp add: token_lines_def)

lemma add_exact_own_file:
  assumes proc: "\<forall>t'. termFileKey t' fl \<in> set (snd st) \<longleftrightarrow> token_lines t' toks \<noteq> []"
    and ex: "\<forall>t'. file_postings fl (exactTerms (fst st)) t' =
                   posting_of fl (length (token_lines t' toks)) (token_lines t' toks)"
    and t: "t \<notin> set object_prototype_keys"
  shows "\<exists>st1. add_exact fl ln t st = Inr st1 \<and>
           (\<forall>t'. termFileKey t' fl \<in> set (snd st1) \<longleftrightarrow> token_lines t' (toks @ [(ln, t)]) \<noteq> []) \<and>
           (\<forall>t'. file_postings fl (exactTerms (fst st1)) t' =
                   posting_of fl (length (token_lines t' (toks @ [(ln, t)])))
                     (token_lines t' (toks @ [(ln, t)]))) \<and>
           terms (fst st1) = terms (fst st)"
proof -
  let ?ex = "ensure_key (exactTerms (fst st)) t"
  let ?ps = "case map_of (exactTerms (fst st)) t of None \<Rightarrow> [] | Some ps \<Rightarrow> ps"
  let ?L = "token_lines t toks"
  let ?upd = "\<lambda>e. e\<lparr>p_occurrences := p_occurrences e + 1, p_positions := p_positions e @ [ln]\<rparr>"
  have get: "js_get ?ex t = Own ?ps"
    using t by (rule js_get_ensure_key_value)
  have own: "filter (\<lambda>p. p_file p = fl) ?ps = posting_of fl (length ?L) ?L"
    using ex[rule_format, of t] by (simp add: file_postings_def split: option.splits)
  show ?thesis
  proof (cases "termFileKey t fl \<in> set (snd st)")
    case True
    with proc have L: "?L \<noteq> []" by simp
    let ?st1 = "((fst st)\<lparr>exactTerms := AList.update t (update_found (\<lambda>e. p_file e = fl) ?upd ?ps) ?ex\<rparr>, snd st)"
    have run: "add_exact fl ln t st = Inr ?st1"
      using get True by (simp add: add_exact_def Let_def)
    have "filter (\<lambda>p. p_file p = fl) (update_found (\<lambda>e. p_file e = fl) ?upd ?ps) =
            (case filter (\<lambda>p. p_file p = fl) ?ps of [] \<Rightarrow> [] | x # xs \<Rightarrow> ?upd x # xs)"
      by (rule filter_update_found) simp
    also have "\<dots> = posting_of fl (length (?L @ [ln])) (?L @ [ln])"
      unfolding own using L by (simp add: posting_of_def)
    finally have new: "filter (\<lambda>p. p_file p = fl) (update_found (\<lambda>e. p_file e = fl) ?upd ?ps) =
            posting_of fl (length (?L @ [ln])) (?L @ [ln])" .
    have a: "\<forall>t'. termFileKey t' fl \<in> set (snd ?st1) \<longleftrightarrow> token_lines t' (toks @ [(ln, t)]) \<noteq> []"
      using proc True by (simp add: token_lines_snoc)
    have b: "\<forall>t'. file_postings fl (exactTerms (fst ?st1)) t' =
                   posting_of fl (length (token_lines t' (toks @ [(ln, t)])))
                     (token_lines t' (toks @ [(ln, t)]))"
      using ex new by (simp add: file_postings_update token_lines_snoc)
    have c: "terms (fst ?st1) = terms (fst st)" by simp
    from run a b c show ?thesis by blast
  next
    case False
    with proc have L: "?L = []" by simp
    let ?st1 = "((fst st)\<lparr>exactTerms := AList.update t (?ps @ [\<lparr>p_file = fl, p_occurrences = 1, p_positions = [ln]\<rparr>]) ?ex\<rparr>,
                 termFileKey t fl # snd st)"
    have run: "add_exact fl ln t st = Inr ?st1"
      using get False by (simp add: add_exact_def Let_def)
    have new: "filter (\<lambda>p. p_file p = fl) (?ps @ [\<lparr>p_file = fl, p_occurrences = 1, p_positions = [ln]\<rparr>]) =
            posting_of fl (length (?L @ [ln])) (?L @ [ln])"
      using own L by (simp add: posting_of_def)
    have a: "\<forall>t'. termFileKey t' fl \<in> set (snd ?st1) \<longleftrightarrow> token_lines t' (toks @ [(ln, t)]) \<noteq> []"
      using proc by (auto simp: token_lines_snoc termFileKey_inj)
    have b: "\<forall>t'. file_postings fl (exactTerms (fst ?st1)) t' =
                   posting_of fl (length (token_lines t' (toks @ [(ln, t)])))
                     (token_lines t' (toks @ [(ln, t)]))"
      using ex new by (simp add: file_postings_update token_lines_snoc)
    have c: "terms (fst ?st1) = terms (fst st)" by simp
    from run a b c show ?thesis by blast
  qed
qed

lemma add_term_own_file:
  assumes tm: "\<forall>k. file_postings fl (terms (fst st)) k =
                   posting_of fl (length (token_lines k subs)) (first_occurrences (token_lines k subs))"
    and s: "toLowerCase s \<notin> set object_prototype_keys"
  shows "\<exists>st1. add_term fl ln s st = Inr st1 \<and>
           (\<forall>k. file_postings fl (terms (fst st1)) k =
                   posting_of fl (length (token_lines k (subs @ [(ln, toLowerCase s)])))
                     (first_occurrences (token_lines k (subs @ [(ln, toLowerCase s)])))) \<and>
           exactTerms (fst st1) = exactTerms (fst st) \<and> snd st1 = snd st"
proof -
  let ?k = "toLowerCase s"
  let ?tm = "ensure_key (terms (fst st)) ?k"
  let ?ps = "case map_of (terms (fst st)) ?k of None \<Rightarrow> [] | Some ps \<Rightarrow> ps"
  let ?L = "token_lines ?k subs"
  let ?upd = "\<lambda>e. e\<lparr>p_occurrences := p_occurrences e + 1,
                      p_positions := (if ln \<in> set (p_positions e) then p_positions e
                                      else p_positions e @ [ln])\<rparr>"
  have get: "js_get ?tm ?k = Own ?ps"
    using s by (rule js_get_ensure_key_value)
  have own: "filter (\<lambda>p. p_file p = fl) ?ps = posting_of fl (length ?L) (first_occurrences ?L)"
    using tm[rule_format, of ?k] by (simp add: file_postings_def split: option.splits)
  have ex_iff: "list_ex (\<lambda>e. p_file e = fl) ?ps \<longleftrightarrow> ?L \<noteq> []"
  proof -
    have "list_ex (\<lambda>e. p_file e = fl) ?ps \<longleftrightarrow> filter (\<lambda>p. p_file p = fl) ?ps \<noteq> []"
      by (simp add: list_ex_iff filter_empty_conv)
    then show ?thesis
      unfolding own by (simp add: posting_of_def)
  qed
  show ?thesis
  proof (cases "?L = []")
    case False
    let ?st1 = "((fst st)\<lparr>terms := AList.update ?k (update_found (\<lambda>e. p_file e = fl) ?upd ?ps) ?tm\<rparr>, snd st)"
    have run: "add_term fl ln s st = Inr ?st1"
      using get False ex_iff by (simp add: add_term_def Let_def)
    have "filter (\<lambda>p. p_file p = fl) (update_found (\<lambda>e. p_file e = fl) ?upd ?ps) =
            (case filter (\<lambda>p. p_file p = fl) ?ps of [] \<Rightarrow> [] | x # xs \<Rightarrow> ?upd x # xs)"
      by (rule filter_update_found) simp
    also have "\<dots> = posting_of fl (length (?L @ [ln])) (first_occurrences (?L @ [ln]))"
      unfolding own using False by (simp add: posting_of_def first_occurrences_snoc)
    finally have new: "filter (\<lambda>p. p_file p = fl) (update_found (\<lambda>e. p_file e = fl) ?upd ?ps) =
            posting_of fl (length (?L @ [ln])) (first_occurrences (?L @ [ln]))" .
    have b: "\<forall>k. file_postings fl (terms (fst ?st1)) k =
                   posting_of fl (length (token_lines k (subs @ [(ln, ?k)])))
                     (first_occurrences (token_lines k (subs @ [(ln, ?k)])))"
      using tm new by (simp add: file_postings_update token_lines_snoc)
    have c: "exactTerms (fst ?st1) = exactTerms (fst st) \<and> snd ?st1 = snd st" by simp
    from run b c show ?thesis by blast
  next
    case True
    let ?st1 = "((fst st)\<lparr>terms := AList.update ?k (?ps @ [\<lparr>p_file = fl, p_occurrences = 1, p_positions = [ln]\<rparr>]) ?tm\<rparr>, snd st)"
    have run: "add_term fl ln s st = Inr ?st1"
      using get True ex_iff by (simp add: add_term_def Let_def)
    have new: "filter (\<lambda>p. p_file p = fl) (?ps @ [\<lparr>p_file = fl, p_occurrences = 1, p_positions = [ln]\<rparr>]) =
            posting_of fl (length (?L @ [ln])) (first_occurrences (?L @ [ln]))"
      using own True by (simp add: posting_of_def first_occurrences_def)
    have b: "\<forall>k. file_postings fl (terms (fst ?st1)) k =
                   posting_of fl (length (token_lines k (subs @ [(ln, ?k)])))
                     (first_occurrences (token_lines k (subs @ [(ln, ?k)])))"
      using tm new by (simp add: file_postings_update token_lines_snoc)
    have c: "exactTerms (fst ?st1) = exactTerms (fst st) \<and> snd ?st1 = snd st" by simp
    from run b c show ?thesis by blast
  qed
qed


lemma sub_tokens_snoc:
  "sub_tokens (toks @ [(ln, t)]) = sub_tokens toks @ map (\<lambda>s. (ln, toLowerCase s)) (allTerms t)"
  by (simp add: sub_tokens_def)

lemma concat_map_single: "concat (map (\<lambda>x. [h x]) xs) = map h xs"
  by (induction xs) auto

lemma add_terms_own_file:
  assumes tm: "\<forall>k. file_postings fl (terms (fst st)) k =
                   posting_of fl (length (token_lines k subs)) (first_occurrences (token_lines k subs))"
    and ss: "\<forall>s \<in> set ss. toLowerCase s \<notin> set object_prototype_keys"
  shows "\<exists>st'. for_each (add_term fl ln) ss st = Inr st' \<and>
           (\<forall>k. file_postings fl (terms (fst st')) k =
                   posting_of fl (length (token_lines k (subs @ map (\<lambda>s. (ln, toLowerCase s)) ss)))
                     (first_occurrences (token_lines k (subs @ map (\<lambda>s. (ln, toLowerCase s)) ss)))) \<and>
           exactTerms (fst st') = exactTerms (fst st) \<and> snd st' = snd st"
proof -
  let ?K = "\<lambda>pre (s :: index_state).
      (\<forall>k. file_postings fl (terms (fst s)) k =
              posting_of fl (length (token_lines k pre)) (first_occurrences (token_lines k pre))) \<and>
      exactTerms (fst s) = exactTerms (fst st) \<and> snd s = snd st"
  have "\<exists>st'. for_each (add_term fl ln) ss st = Inr st' \<and>
          ?K (subs @ concat (map (\<lambda>s. [(ln, toLowerCase s)]) ss)) st'"
  proof (rule for_each_prefix[where K = ?K])
    show "?K subs st" using tm by simp
  next
    fix pre s and a :: index_state
    assume s: "s \<in> set ss" and a: "?K pre a"
    from s ss have "toLowerCase s \<notin> set object_prototype_keys" by simp
    from add_term_own_file[OF conjunct1[OF a] this, where ln = ln] a
    show "\<exists>s'. add_term fl ln s a = Inr s' \<and> ?K (pre @ [(ln, toLowerCase s)]) s'"
      by auto
  qed
  then show ?thesis
    by (simp only: concat_map_single)
qed

lemma index_identifier_own_file:
  assumes inv: "file_indexed fl toks st" and clean: "\<not> skipped_term t \<longrightarrow> \<not> throwing_term t"
  shows "\<exists>st'. index_identifier fl ln t st = Inr st' \<and> file_indexed fl (toks @ [(ln, t)]) st'"
proof (cases "skipped_term t")
  case True
  then show ?thesis
    using inv by (simp add: index_identifier_def file_indexed_def indexed_tokens_snoc)
next
  case False
  with clean have t: "t \<notin> set object_prototype_keys"
    and ss: "\<forall>s \<in> set (allTerms t). toLowerCase s \<notin> set object_prototype_keys"
    by (auto simp: throwing_term_def list_ex_iff)
  let ?toks = "indexed_tokens toks"
  from inv have proc: "\<forall>t'. termFileKey t' fl \<in> set (snd st) \<longleftrightarrow> token_lines t' ?toks \<noteq> []"
    and ex: "\<forall>t'. file_postings fl (exactTerms (fst st)) t' =
                   posting_of fl (length (token_lines t' ?toks)) (token_lines t' ?toks)"
    and tm: "\<forall>k. file_postings fl (terms (fst st)) k =
                   posting_of fl (length (token_lines k (sub_tokens ?toks)))
                     (first_occurrences (token_lines k (sub_tokens ?toks)))"
    by (simp_all add: file_indexed_def)
  from add_exact_own_file[OF proc ex t, where ln = ln] obtain st1
    where st1: "add_exact fl ln t st = Inr st1"
      "\<forall>t'. termFileKey t' fl \<in> set (snd st1) \<longleftrightarrow> token_lines t' (?toks @ [(ln, t)]) \<noteq> []"
      "\<forall>t'. file_postings fl (exactTerms (fst st1)) t' =
             posting_of fl (length (token_lines t' (?toks @ [(ln, t)]))) (token_lines t' (?toks @ [(ln, t)]))"
      "terms (fst st1) = terms (fst st)"
    by blast
  from tm st1(4) have tm1: "\<forall>k. file_postings fl (terms (fst st1)) k =
                   posting_of fl (length (token_lines k (sub_tokens ?toks)))
                     (first_occurrences (token_lines k (sub_tokens ?toks)))"
    by simp
  from add_terms_own_file[OF tm1 ss, where ln = ln] obtain st'
    where st': "for_each (add_term fl ln) (allTerms t) st1 = Inr st'"
      "\<forall>k. file_postings fl (terms (fst st')) k =
           posting_of fl (length (token_lines k (sub_tokens ?toks @ map (\<lambda>s. (ln, toLowerCase s)) (allTerms t))))
             (first_occurrences (token_lines k (sub_tokens ?toks @ map (\<lambda>s. (ln, toLowerCase s)) (allTerms t))))"
      "exactTerms (fst st') = exactTerms (fst st1)" "snd st' = snd st1"
    by blast
  have new: "indexed_tokens (toks @ [(ln, t)]) = ?toks @ [(ln, t)]"
    using False by (simp add: indexed_tokens_snoc)
  have "file_indexed fl (toks @ [(ln, t)]) st'"
    unfolding file_indexed_def new sub_tokens_snoc
    using st1(2,3) st'(2,3,4) by simp
  moreover have "index_identifier fl ln t st = Inr st'"
    using False st1(1) st'(1) by (simp add: index_identifier_def)
  ultimately show ?thesis by blast
qed

lemma index_content_own_file:
  assumes clean: "indexes_cleanly content"
    and init: "file_indexed fl [] (idx, [])"
  shows "\<exists>st. index_content fl content idx = Inr st \<and> file_indexed fl (line_tokens content) st"
proof -
  let ?lines = "split_on (CHR ''\<newline>'') content"
  have "\<exists>st. for_each (index_line fl) (enumerate 0 ?lines) (idx, []) = Inr st \<and>
          file_indexed fl ([] @ concat (map (\<lambda>il. map (\<lambda>t. (fst il + 1, t)) (identifiers (snd il)))
                                         (enumerate 0 ?lines))) st"
  proof (rule for_each_prefix[where K = "file_indexed fl", OF init])
    fix pre and il :: "nat \<times> string" and s :: index_state
    assume il: "il \<in> set (enumerate 0 ?lines)" and s: "file_indexed fl pre s"
    from il have "fst il < length ?lines" and "snd il = ?lines ! fst il"
      by (auto simp: in_set_enumerate_eq)
    then have "snd il \<in> set ?lines"
      by (simp only: nth_mem)
    with clean have ok: "\<forall>t \<in> set (identifiers (snd il)). \<not> skipped_term t \<longrightarrow> \<not> throwing_term t"
      by (simp add: indexes_cleanly_def)
    have "\<exists>s'. for_each (index_identifier fl (fst il + 1)) (identifiers (snd il)) s = Inr s' \<and>
            file_indexed fl (pre @ concat (map (\<lambda>t. [(fst il + 1, t)]) (identifiers (snd il)))) s'"
    proof (rule for_each_prefix[where K = "file_indexed fl", OF s])
      fix pre' t and a :: index_state
      assume "t \<in> set (identifiers (snd il))" and "file_indexed fl pre' a"
      with ok show "\<exists>s'. index_identifier fl (fst il + 1) t a = Inr s' \<and>
                         file_indexed fl (pre' @ [(fst il + 1, t)]) s'"
        by (intro index_identifier_own_file) auto
    qed
    then show "\<exists>s'. index_line fl il s = Inr s' \<and>
                 file_indexed fl (pre @ map (\<lambda>t. (fst il + 1, t)) (identifiers (snd il))) s'"
      by (simp only: concat_map_single index_line_def)
  qed
  then show ?thesis
    by (simp add: index_content_def line_tokens_def)
qed

lemma file_indexed_init:
  assumes "\<forall>t. file_postings fl (exactTerms idx) t = []" and "\<forall>k. file_postings fl (terms idx) k = []"
  shows "file_indexed fl [] (idx, [])"
  using assms
  by (simp add: file_indexed_def indexed_tokens_def token_lines_def sub_tokens_def posting_of_def)

lemma file_postings_Nil: "file_postings fl [] t = []"
  by (simp add: file_postings_def)

lemma buildSearchIndex_file_postings:
  assumes d: "distinct (map fst (fs_files structure))"
    and entry: "(fl, info) \<in> set (fs_files structure)"
    and size: "fi_size info \<le> 1024 * 1024" and ext: "allowed_extension fl"
    and content: "read_file E category repo fl = Some content"
    and clean: "indexes_cleanly content"
  shows "file_postings fl (exactTerms (buildSearchIndex E category repo structure)) t =
           posting_of fl (length (token_lines t (indexed_tokens (line_tokens content))))
             (token_lines t (indexed_tokens (line_tokens content)))"
    and "file_postings fl (terms (buildSearchIndex E category repo structure)) k =
           posting_of fl (length (token_lines k (sub_tokens (indexed_tokens (line_tokens content)))))
             (first_occurrences (token_lines k (sub_tokens (indexed_tokens (line_tokens content)))))"
proof -
  from entry obtain pre post where split: "fs_files structure = pre @ (fl, info) # post"
    by (meson split_list)
  with d have pre: "fl \<notin> fst ` set pre" and post: "fl \<notin> fst ` set post"
    by auto
  let ?init = "\<lparr>exactTerms = [], terms = []\<rparr>"
  let ?idx0 = "fold (index_file E category repo) pre ?init"
  let ?idx1 = "index_file E category repo (fl, info) ?idx0"
  have whole: "buildSearchIndex E category repo structure = fold (index_file E category repo) post ?idx1"
    by (simp add: buildSearchIndex_def split)
  from fold_index_file_other_files[OF pre, where E = E and category = category and repo = repo and idx = ?init]
  have "\<forall>t. file_postings fl (exactTerms ?idx0) t = []" "\<forall>k. file_postings fl (terms ?idx0) k = []"
    by (simp_all add: file_postings_Nil)
  then have "file_indexed fl [] (?idx0, [])"
    by (rule file_indexed_init)
  from index_content_own_file[OF clean this] obtain st
    where st: "index_content fl content ?idx0 = Inr st" "file_indexed fl (line_tokens content) st"
    by blast
  have idx1: "?idx1 = fst st"
    using size ext content st(1) by (simp add: index_file_def)
  from fold_index_file_other_files[OF post, where E = E and category = category and repo = repo and idx = ?idx1]
  have same: "file_postings fl (exactTerms (buildSearchIndex E category repo structure)) = file_postings fl (exactTerms (fst st))"
    "file_postings fl (terms (buildSearchIndex E category repo structure)) = file_postings fl (terms (fst st))"
    unfolding whole idx1 by simp_all
  show "file_postings fl (exactTerms (buildSearchIndex E category repo structure)) t =
           posting_of fl (length (token_lines t (indexed_tokens (line_tokens content))))
             (token_lines t (indexed_tokens (line_tokens content)))"
    unfolding same using st(2) by (simp add: file_indexed_def)
  show "file_postings fl (terms (buildSearchIndex E category repo structure)) k =
           posting_of fl (length (token_lines k (sub_tokens (indexed_tokens (line_tokens content)))))
             (first_occurrences (token_lines k (sub_tokens (indexed_tokens (line_tokens content)))))"
    unfolding same using st(2) by (simp add: file_indexed_def)
qed

lemma indexes_cleanly_tokens:
  assumes "\<forall>lt \<in> set (line_tokens content). \<not> skipped_term (snd lt) \<longrightarrow> \<not> throwing_term (snd lt)"
  shows "indexes_cleanly content"
  unfolding indexes_cleanly_def
proof (intro ballI impI)
  fix line t
  assume line: "line \<in> set (split_on (CHR ''\<newline>'') content)" and t: "t \<in> set (identifiers line)"
    and ns: "\<not> skipped_term t"
  from line obtain i where "i < length (split_on (CHR ''\<newline>'') content)"
    "split_on (CHR ''\<newline>'') content ! i = line"
    by (auto simp: in_set_conv_nth)
  then have "(i, line) \<in> set (enumerate 0 (split_on (CHR ''\<newline>'') content))"
    by (simp add: in_set_enumerate_eq)
  with t have "(i + 1, t) \<in> set (line_tokens content)"
    unfolding line_tokens_def by force
  with assms ns show "\<not> throwing_term t"
    by fastforce
qed


section \<open>A search made of direct scans\<close>

lemma matchingLines_nonempty:
  "matchingLines pattern lines \<noteq> [] \<longleftrightarrow> list_ex (\<lambda>l. includes_str l pattern) lines"
proof -
  have "matchingLines pattern lines \<noteq> [] \<longleftrightarrow>
          (\<exists>i \<in> set [0..<length lines]. includes_str (lines ! i) pattern)"
    by (simp add: matchingLines_def filter_empty_conv)
  also have "\<dots> \<longleftrightarrow> (\<exists>i < length lines. includes_str (lines ! i) pattern)"
    by auto
  also have "\<dots> \<longleftrightarrow> (\<exists>l \<in> set lines. includes_str l pattern)"
    by (metis in_set_conv_nth)
  finally show ?thesis by (simp add: list_ex_iff)
qed

lemma scan_file_keys:
  "map group_key (scan_file E pattern category repo fname results) =
     map group_key results @ (if file_matches E pattern category repo fname then [(category, repo, fname)] else [])"
  by (simp add: scan_file_def file_matches_def Let_def group_key_def matchingLines_nonempty
      split: option.splits)

lemma fold_scan_file_keys:
  "map group_key (fold (scan_file E pattern category repo) files results) =
     map group_key results @
     map (\<lambda>f. (category, repo, f)) (filter (file_matches E pattern category repo) files)"
  by (induction files arbitrary: results) (simp_all add: scan_file_keys)

lemma search_repo_direct:
  assumes "path_exists E category repo \<longrightarrow>
             \<not> isCacheValid E category repo \<and>
             (\<exists>files. globby E category repo (''**/'' @ filePattern) = Inr files)"
  shows "\<exists>rs. search_repo E pattern filePattern category repo results = Inr rs \<and>
              map group_key rs =
                map group_key results @ repo_matching_files E pattern filePattern category repo"
  using assms
  by (auto simp: search_repo_def repo_matching_files_def fallback_scan_def fold_scan_file_keys)

lemma for_each_search_repo_direct:
  assumes "\<forall>r \<in> set names. path_exists E category r \<longrightarrow>
             \<not> isCacheValid E category r \<and>
             (\<exists>files. globby E category r (''**/'' @ filePattern) = Inr files)"
  shows "\<exists>rs. for_each (search_repo E pattern filePattern category) names results = Inr rs \<and>
              map group_key rs =
                map group_key results @
                concat (map (repo_matching_files E pattern filePattern category) names)"
  using assms
proof (induction names arbitrary: results)
  case Nil
  then show ?case by simp
next
  case (Cons r names)
  from Cons.prems obtain rs where rs:
    "search_repo E pattern filePattern category r results = Inr rs"
    "map group_key rs = map group_key results @ repo_matching_files E pattern filePattern category r"
    using search_repo_direct[of E category r filePattern pattern results] by auto
  from Cons.IH[of rs] Cons.prems obtain rs' where
    "for_each (search_repo E pattern filePattern category) names rs = Inr rs'"
    "map group_key rs' = map group_key rs @
       concat (map (repo_matching_files E pattern filePattern category) names)"
    by auto
  with rs show ?case by simp
qed

lemma for_each_search_category_direct:
  assumes d: "distinct (map fst (registry E))"
    and s: "scans_directly E filePattern"
    and sub: "set cs \<subseteq> set (registry E)"
  shows "\<exists>rs. for_each (search_category E pattern filePattern None) (map fst cs) results = Inr rs \<and>
              map group_key rs =
                map group_key results @
                concat (map (\<lambda>cn. concat (map (repo_matching_files E pattern filePattern (fst cn)) (snd cn))) cs)"
  using sub
proof (induction cs arbitrary: results)
  case Nil
  then show ?case by simp
next
  case (Cons cn cs)
  from Cons.prems have mem: "(fst cn, snd cn) \<in> set (registry E)" by simp
  with d have "map_of (registry E) (fst cn) = Some (snd cn)"
    by (intro map_of_is_SomeI) auto
  then have own: "js_get (registry E) (fst cn) = Own (snd cn)"
    by (simp add: js_get_def)
  from s mem have "\<forall>r \<in> set (snd cn). path_exists E (fst cn) r \<longrightarrow>
             \<not> isCacheValid E (fst cn) r \<and>
             (\<exists>files. globby E (fst cn) r (''**/'' @ filePattern) = Inr files)"
    unfolding scans_directly_def by fastforce
  from for_each_search_repo_direct[OF this, of pattern results] obtain rs where rs:
    "for_each (search_repo E pattern filePattern (fst cn)) (snd cn) results = Inr rs"
    "map group_key rs = map group_key results @
       concat (map (repo_matching_files E pattern filePattern (fst cn)) (snd cn))"
    by auto
  then have cat: "search_category E pattern filePattern None (fst cn) results = Inr rs"
    using own by (simp add: search_category_def truthy_def)
  from Cons.IH[of rs] Cons.prems obtain rs' where
    "for_each (search_category E pattern filePattern None) (map fst cs) rs = Inr rs'"
    "map group_key rs' = map group_key rs @
       concat (map (\<lambda>cn. concat (map (repo_matching_files E pattern filePattern (fst cn)) (snd cn))) cs)"
    by auto
  with rs cat show ?case by simp
qed

lemma search_all_direct:
  assumes "distinct (map fst (registry E))" and "scans_directly E filePattern"
  shows "\<exists>rs. search_all E pattern filePattern None None = Inr rs \<and>
              map group_key rs = matching_files E pattern filePattern"
  using for_each_search_category_direct[OF assms subset_refl, of pattern "[]"]
  by (simp add: search_all_def truthy_def matching_files_def)

lemma searchCodeWithCache_direct:
  assumes "distinct (map fst (registry E))" and "scans_directly E filePattern"
  shows "map group_key (searchCodeWithCache E pattern filePattern None None) =
           matching_files E pattern filePattern"
  using search_all_direct[OF assms, of pattern]
  by (auto simp: searchCodeWithCache_def)


section \<open>The records of the two search paths\<close>

lemma position_records_single:
  "\<forall>g \<in> set (position_records category repo fname lines positions). length (r_matches g) = 1"
  by (auto simp: position_records_def)

lemma emit_posting_single:
  assumes "\<forall>g \<in> set results. length (r_matches g) = 1"
  shows "\<forall>g \<in> set (emit_posting E category repo match results). length (r_matches g) = 1"
  using assms position_records_single
  by (auto simp: emit_posting_def split: option.splits)

lemma exact_lookup_single:
  assumes "\<forall>g \<in> set results. length (r_matches g) = 1"
  shows "case exact_lookup E pattern filePattern category repo idx results of
           Inl e \<Rightarrow> True
         | Inr rs \<Rightarrow> \<forall>g \<in> set rs. length (r_matches g) = 1"
proof (cases "js_get (exactTerms idx) pattern")
  case (Own ps)
  have "case for_each (exact_posting E filePattern category repo) ps results of
          Inl e \<Rightarrow> True
        | Inr rs \<Rightarrow> \<forall>g \<in> set rs. length (r_matches g) = 1"
  proof (rule for_each_invariant[where P = "\<lambda>rs. \<forall>g \<in> set rs. length (r_matches g) = 1"
        and Q = "\<lambda>e. True", OF assms])
    fix m :: posting and rs :: "SearchResult list"
    assume "\<forall>g \<in> set rs. length (r_matches g) = 1"
    then show "case exact_posting E filePattern category repo m rs of
                 Inl e \<Rightarrow> True
               | Inr rs' \<Rightarrow> \<forall>g \<in> set rs'. length (r_matches g) = 1"
      using emit_posting_single[of rs E category repo m]
      by (simp add: exact_posting_def split: sum.splits)
  qed
  with Own show ?thesis by (simp add: exact_lookup_def)
next
  case Inherited
  then show ?thesis by (simp add: exact_lookup_def)
next
  case Undefined
  then show ?thesis using assms by (simp add: exact_lookup_def)
qed

lemma fuzzy_fallback_single:
  assumes "\<forall>g \<in> set results. length (r_matches g) = 1"
  shows "\<forall>g \<in> set (fuzzy_fallback E pattern filePattern category repo idx results).
           length (r_matches g) = 1"
proof (cases "js_regexp E pattern True")
  case None
  then show ?thesis using assms by (simp add: fuzzy_fallback_def)
next
  case (Some test)
  let ?P = "\<lambda>rs :: SearchResult list. \<forall>g \<in> set rs. length (r_matches g) = 1"
  let ?Q = "\<lambda>e :: js_error \<times> SearchResult list. \<forall>g \<in> set (snd e). length (r_matches g) = 1"
  have posting: "case fuzzy_posting E filePattern category repo m rs of Inl e \<Rightarrow> ?Q e | Inr rs' \<Rightarrow> ?P rs'"
    if "?P rs" for m rs
    using that emit_posting_single[of rs E category repo m]
    by (simp add: fuzzy_posting_def split: sum.splits)
  have "case for_each (fuzzy_term E test filePattern category repo idx) (map fst (terms idx)) results of
          Inl e \<Rightarrow> ?Q e | Inr rs \<Rightarrow> ?P rs"
  proof (rule for_each_invariant[where P = ?P and Q = ?Q, OF assms])
    fix t :: string and rs :: "SearchResult list"
    assume rs: "?P rs"
    show "case fuzzy_term E test filePattern category repo idx t rs of Inl e \<Rightarrow> ?Q e | Inr rs' \<Rightarrow> ?P rs'"
    proof (cases "test t")
      case False
      then show ?thesis using rs by (simp add: fuzzy_term_def)
    next
      case True
      show ?thesis
      proof (cases "js_get (terms idx) t")
        case (Own ps)
        have "case for_each (fuzzy_posting E filePattern category repo) ps rs of
                Inl e \<Rightarrow> ?Q e | Inr rs' \<Rightarrow> ?P rs'"
          using rs posting by (intro for_each_invariant[where P = ?P and Q = ?Q]) auto
        with True Own show ?thesis by (simp add: fuzzy_term_def)
      next
        case Inherited
        with True rs show ?thesis by (simp add: fuzzy_term_def)
      next
        case Undefined
        with True rs show ?thesis by (simp add: fuzzy_term_def)
      qed
    qed
  qed
  with Some show ?thesis by (simp add: fuzzy_fallback_def split: sum.splits)
qed

lemma cached_search_single:
  assumes "\<forall>g \<in> set results. length (r_matches g) = 1"
    and "cached_search E pattern filePattern category repo idx results = Inr rs"
  shows "\<forall>g \<in> set rs. length (r_matches g) = 1"
proof -
  from assms(2) obtain rs' where ex: "exact_lookup E pattern filePattern category repo idx results = Inr rs'"
    and rs: "rs = (if length rs' = 0 then fuzzy_fallback E pattern filePattern category repo idx rs' else rs')"
    by (auto simp: cached_search_def split: sum.splits)
  from exact_lookup_single[OF assms(1), of E pattern filePattern category repo idx] ex
  have "\<forall>g \<in> set rs'. length (r_matches g) = 1" by simp
  with rs fuzzy_fallback_single[of rs' E pattern filePattern category repo idx]
  show ?thesis by (simp split: if_splits)
qed

lemma matchingLines_lines:
  "map m_line (matchingLines pattern lines) =
     map Suc (filter (\<lambda>i. includes_str (lines ! i) pattern) [0..<length lines])"
  by (simp add: matchingLines_def make_match_def comp_def)

lemma matchingLines_sorted: "sorted_wrt (<) (map m_line (matchingLines pattern lines))"
  unfolding matchingLines_lines
  by (simp add: sorted_wrt_map sorted_wrt_filter)

lemma scan_file_groups:
  assumes "\<forall>g \<in> set results. r_matches g \<noteq> [] \<and> sorted_wrt (<) (map m_line (r_matches g))"
  shows "\<forall>g \<in> set (scan_file E pattern category repo fname results).
           r_matches g \<noteq> [] \<and> sorted_wrt (<) (map m_line (r_matches g))"
proof (cases "read_file E category repo fname")
  case None
  then show ?thesis using assms by (simp add: scan_file_def)
next
  case (Some content)
  let ?ms = "matchingLines pattern (split_on (CHR ''\<newline>'') content)"
  have "sorted_wrt (<) (map m_line ?ms)"
    by (rule matchingLines_sorted)
  then show ?thesis
    using assms Some by (cases "?ms = []") (simp_all add: scan_file_def Let_def)
qed

lemma fold_scan_file_groups:
  assumes "\<forall>g \<in> set results. r_matches g \<noteq> [] \<and> sorted_wrt (<) (map m_line (r_matches g))"
  shows "\<forall>g \<in> set (fold (scan_file E pattern category repo) files results).
           r_matches g \<noteq> [] \<and> sorted_wrt (<) (map m_line (r_matches g))"
  using assms
proof (induction files arbitrary: results)
  case Nil
  then show ?case by simp
next
  case (Cons f files)
  have "\<forall>g \<in> set (fold (scan_file E pattern category repo) files
                      (scan_file E pattern category repo f results)).
          r_matches g \<noteq> [] \<and> sorted_wrt (<) (map m_line (r_matches g))"
    by (rule Cons.IH[OF scan_file_groups[OF Cons.prems]])
  then show ?case by (simp only: fold_simps)
qed

lemma fallback_scan_one_group_per_file:
  assumes "globby E category repo (''**/'' @ filePattern) = Inr files" and "distinct files"
    and "fallback_scan E pattern filePattern category repo [] = Inr rs"
  shows "distinct (map group_key rs)"
    and "\<forall>g \<in> set rs. r_matches g \<noteq> [] \<and> sorted_wrt (<) (map m_line (r_matches g))"
proof -
  from assms(1,3) have rs: "rs = fold (scan_file E pattern category repo) files []"
    by (simp add: fallback_scan_def)
  have "map group_key rs =
          map (\<lambda>f. (category, repo, f)) (filter (file_matches E pattern category repo) files)"
    unfolding rs by (simp add: fold_scan_file_keys)
  then show "distinct (map group_key rs)"
    using assms(2) by (simp add: distinct_map inj_on_def)
  show "\<forall>g \<in> set rs. r_matches g \<noteq> [] \<and> sorted_wrt (<) (map m_line (r_matches g))"
    unfolding rs by (rule fold_scan_file_groups) simp
qed


section \<open>Exact-term matches and the direct scan\<close>

lemma starts_with_includes: "starts_with s p \<Longrightarrow> includes_str s p"
  by (cases s) (auto simp: starts_with_def)

lemma includes_str_append: "includes_str (a @ p @ b) p"
proof (induction a)
  case Nil
  show ?case by (rule starts_with_includes) (simp add: starts_with_def)
next
  case (Cons x a)
  then show ?case by simp
qed

lemma identifiers_infix:
  "t \<in> set (identifiers s) \<Longrightarrow> \<exists>a b. s = a @ t @ b"
proof (induction s rule: identifiers.induct)
  case 1
  then show ?case by simp
next
  case (2 c cs)
  show ?case
  proof (cases "is_ident_start c")
    case False
    with 2 obtain a b where "cs = a @ t @ b" by auto
    then have "c # cs = (c # a) @ t @ b" by simp
    then show ?thesis by blast
  next
    case True
    with "2.prems" consider "t = c # takeWhile is_ident_char cs"
      | "t \<in> set (identifiers (dropWhile is_ident_char cs))"
      by auto
    then show ?thesis
    proof cases
      case 1
      then have "c # cs = [] @ t @ dropWhile is_ident_char cs" by simp
      then show ?thesis by blast
    next
      case 2
      with "2.IH"(1)[OF True] obtain a b where "dropWhile is_ident_char cs = a @ t @ b"
        by auto
      then have "c # cs = (c # takeWhile is_ident_char cs @ a) @ t @ b"
        by (metis append_Cons append_assoc takeWhile_dropWhile_id)
      then show ?thesis by blast
    qed
  qed
qed

lemma identifiers_includes: "t \<in> set (identifiers s) \<Longrightarrow> includes_str s t"
  using identifiers_infix[of t s] includes_str_append by auto

lemma match_set_append: "match_set (rs @ rs') = match_set rs \<union> match_set rs'"
  by (auto simp: match_set_def)

lemma match_set_Nil: "match_set [] = {}"
  by (simp add: match_set_def)

lemma match_set_position_records:
  assumes "x \<in> match_set (position_records category repo fname lines positions)"
  shows "\<exists>pos \<in> set positions. 0 < pos \<and> pos \<le> length lines \<and>
           x = ((category, repo, fname), make_match lines (pos - 1))"
  using assms
  by (auto simp: match_set_def position_records_def group_key_def make_match_def)

lemma match_set_emit_posting:
  assumes "x \<in> match_set (emit_posting E category repo p results)"
  shows "x \<in> match_set results \<or>
         (\<exists>content. read_file E category repo (p_file p) = Some content \<and>
            (\<exists>pos \<in> set (p_positions p). 0 < pos \<and> pos \<le> length (split_on (CHR ''\<newline>'') content) \<and>
               x = ((category, repo, p_file p), make_match (split_on (CHR ''\<newline>'') content) (pos - 1))))"
proof (cases "read_file E category repo (p_file p)")
  case None
  with assms show ?thesis by (simp add: emit_posting_def)
next
  case (Some content)
  with assms have "x \<in> match_set results \<or>
      x \<in> match_set (position_records category repo (p_file p) (split_on (CHR ''\<newline>'') content) (p_positions p))"
    by (simp add: emit_posting_def match_set_append)
  then show ?thesis
    using Some match_set_position_records by blast
qed

lemma exact_lookup_star:
  assumes "exact_lookup E pattern ''*'' category repo idx [] = Inr rs" and "x \<in> match_set rs"
  shows "\<exists>ps p content pos. js_get (exactTerms idx) pattern = Own ps \<and> p \<in> set ps \<and>
           read_file E category repo (p_file p) = Some content \<and>
           pos \<in> set (p_positions p) \<and> 0 < pos \<and> pos \<le> length (split_on (CHR ''\<newline>'') content) \<and>
           x = ((category, repo, p_file p), make_match (split_on (CHR ''\<newline>'') content) (pos - 1))"
proof (cases "js_get (exactTerms idx) pattern")
  case (Own ps)
  let ?P = "\<lambda>rs. \<forall>x \<in> match_set rs. \<exists>p content pos. p \<in> set ps \<and>
           read_file E category repo (p_file p) = Some content \<and>
           pos \<in> set (p_positions p) \<and> 0 < pos \<and> pos \<le> length (split_on (CHR ''\<newline>'') content) \<and>
           x = ((category, repo, p_file p), make_match (split_on (CHR ''\<newline>'') content) (pos - 1))"
  have "case for_each (exact_posting E ''*'' category repo) ps [] of Inl e \<Rightarrow> True | Inr rs \<Rightarrow> ?P rs"
  proof (rule for_each_invariant[where P = ?P and Q = "\<lambda>e. True"])
    show "?P []" by (simp add: match_set_Nil)
  next
    fix p :: posting and results :: "SearchResult list"
    assume p: "p \<in> set ps" and inv: "?P results"
    have "?P (emit_posting E category repo p results)"
    proof
      fix x
      assume "x \<in> match_set (emit_posting E category repo p results)"
      from match_set_emit_posting[OF this] inv p
      show "\<exists>p content pos. p \<in> set ps \<and>
           read_file E category repo (p_file p) = Some content \<and>
           pos \<in> set (p_positions p) \<and> 0 < pos \<and> pos \<le> length (split_on (CHR ''\<newline>'') content) \<and>
           x = ((category, repo, p_file p), make_match (split_on (CHR ''\<newline>'') content) (pos - 1))"
        by blast
    qed
    then show "case exact_posting E ''*'' category repo p results of Inl e \<Rightarrow> True | Inr rs \<Rightarrow> ?P rs"
      by (simp add: exact_posting_def file_filter_def)
  qed
  with assms Own show ?thesis
    by (simp add: exact_lookup_def)
next
  case Inherited
  with assms show ?thesis by (simp add: exact_lookup_def)
next
  case Undefined
  with assms show ?thesis by (simp add: exact_lookup_def match_set_Nil)
qed

lemma match_set_scan_file_mono:
  "match_set results \<subseteq> match_set (scan_file E pattern category repo fname results)"
  by (auto simp: scan_file_def Let_def match_set_append split: option.splits)

lemma match_set_fold_scan_file_mono:
  "match_set results \<subseteq> match_set (fold (scan_file E pattern category repo) files results)"
proof (induction files arbitrary: results)
  case Nil
  show ?case by simp
next
  case (Cons f files)
  have "match_set results \<subseteq> match_set (scan_file E pattern category repo f results)"
    by (rule match_set_scan_file_mono)
  also have "\<dots> \<subseteq> match_set (fold (scan_file E pattern category repo) files
                              (scan_file E pattern category repo f results))"
    by (rule Cons.IH)
  finally show ?case by simp
qed

lemma match_set_scan_file_hit:
  assumes "read_file E category repo fname = Some content"
    and "i < length (split_on (CHR ''\<newline>'') content)"
    and "includes_str (split_on (CHR ''\<newline>'') content ! i) pattern"
  shows "((category, repo, fname), make_match (split_on (CHR ''\<newline>'') content) i)
           \<in> match_set (scan_file E pattern category repo fname results)"
proof -
  let ?lines = "split_on (CHR ''\<newline>'') content"
  have "make_match ?lines i \<in> set (matchingLines pattern ?lines)"
    using assms(2,3) by (auto simp: matchingLines_def)
  then show ?thesis
    using assms(1)
    by (auto simp: scan_file_def Let_def match_set_append match_set_def group_key_def)
qed

lemma match_set_fold_scan_file_hit:
  assumes "fname \<in> set files" and "read_file E category repo fname = Some content"
    and "i < length (split_on (CHR ''\<newline>'') content)"
    and "includes_str (split_on (CHR ''\<newline>'') content ! i) pattern"
  shows "((category, repo, fname), make_match (split_on (CHR ''\<newline>'') content) i)
           \<in> match_set (fold (scan_file E pattern category repo) files results)"
  using assms(1)
proof (induction files arbitrary: results)
  case Nil
  then show ?case by simp
next
  case (Cons f files)
  show ?case
  proof (cases "fname = f")
    case True
    have "((category, repo, fname), make_match (split_on (CHR ''\<newline>'') content) i)
           \<in> match_set (scan_file E pattern category repo f results)"
      unfolding True[symmetric] by (rule match_set_scan_file_hit[OF assms(2-4)])
    then show ?thesis
      using match_set_fold_scan_file_mono[of "scan_file E pattern category repo f results" E pattern category repo files]
      by auto
  next
    case False
    with Cons.prems have "fname \<in> set files" by simp
    from Cons.IH[OF this] show ?thesis by simp
  qed
qed

lemma stat_files_names:
  "stat_files E category repo files = Inr entries \<Longrightarrow> map fst entries = files"
  by (induction files arbitrary: entries) (auto split: option.splits sum.splits)

lemma scanFileStructure_files:
  assumes "scanFileStructure E category repo = Inr structure"
  shows "globby E category repo ''**/*'' = Inr (map fst (fs_files structure))"
  using assms
  by (auto simp: scanFileStructure_def split: sum.splits if_splits dest: stat_files_names)

lemma exact_positions_are_tokens:
  "all_postings (\<lambda>t p. \<forall>ln \<in> set (p_positions p). token_at E category repo structure (p_file p) ln t)
     (exactTerms (buildSearchIndex E category repo structure))"
  by (rule buildSearchIndex_exact_postings) auto

lemma exact_lookup_subset_direct_scan:
  assumes scan: "scanFileStructure E category repo = Inr structure"
    and ex: "exact_lookup E pattern ''*'' category repo (buildSearchIndex E category repo structure) [] = Inr rs"
  shows "match_set rs \<subseteq> match_set (fold (scan_file E pattern category repo) (map fst (fs_files structure)) [])"
proof
  fix x
  assume "x \<in> match_set rs"
  from exact_lookup_star[OF ex this] obtain ps p content pos where
    own: "js_get (exactTerms (buildSearchIndex E category repo structure)) pattern = Own ps"
    and p: "p \<in> set ps"
    and rd: "read_file E category repo (p_file p) = Some content"
    and pos: "pos \<in> set (p_positions p)" "0 < pos" "pos \<le> length (split_on (CHR ''\<newline>'') content)"
    and x: "x = ((category, repo, p_file p), make_match (split_on (CHR ''\<newline>'') content) (pos - 1))"
    by blast
  from own have "(pattern, ps) \<in> set (exactTerms (buildSearchIndex E category repo structure))"
    by (rule js_get_Own_D)
  with exact_positions_are_tokens[of E category repo "structure"] p pos(1)
  have "token_at E category repo structure (p_file p) pos pattern"
    unfolding all_postings_def all_lists_def by blast
  then obtain info where mem: "(p_file p, info) \<in> set (fs_files structure)"
    and tok: "pattern \<in> set (identifiers (split_on (CHR ''\<newline>'') content ! (pos - 1)))"
    using rd by (auto simp: token_at_def)
  from mem have "p_file p \<in> set (map fst (fs_files structure))" by force
  moreover have "pos - 1 < length (split_on (CHR ''\<newline>'') content)"
    using pos by simp
  moreover have "includes_str (split_on (CHR ''\<newline>'') content ! (pos - 1)) pattern"
    using tok by (rule identifiers_includes)
  ultimately show "x \<in> match_set (fold (scan_file E pattern category repo) (map fst (fs_files structure)) [])"
    unfolding x using rd by (intro match_set_fold_scan_file_hit)
qed

lemma exact_lookup_same_files:
  assumes "read_file E' = read_file E" and "js_regexp E' = js_regexp E"
  shows "exact_lookup E' = exact_lookup E"
proof -
  have ff: "file_filter E' = file_filter E"
    unfolding fun_eq_iff file_filter_def assms by simp
  have ep: "emit_posting E' = emit_posting E"
    unfolding fun_eq_iff emit_posting_def assms by simp
  have xp: "exact_posting E' = exact_posting E"
    unfolding fun_eq_iff exact_posting_def ff ep by simp
  show ?thesis
    unfolding fun_eq_iff exact_lookup_def xp by simp
qed

lemma buildRepoCache_valid:
  assumes "buildRepoCache E category repo = (E', Some cache)"
  shows "isCacheValid E' category repo"
    and "loadSearchIndex E' category repo = Some (rc_searchIndex cache)"
proof -
  from buildRepoCache_Some[OF assms] obtain currentHash where
    h: "revparse_HEAD E category repo = Inr currentHash"
      "lastCommitHash (rc_metadata cache) = trim currentHash"
    and save: "saveRepoCache E category repo cache = Inr E'"
    by blast
  show "isCacheValid E' category repo"
    using h saveRepoCache_frame(7,10)[OF save] by (simp add: isCacheValid_def)
  show "loadSearchIndex E' category repo = Some (rc_searchIndex cache)"
    using saveRepoCache_frame(11)[OF save] by (simp add: loadSearchIndex_def)
qed

lemma search_all_single:
  assumes "category \<noteq> []" and "repo \<noteq> []"
  shows "search_all E pattern filePattern (Some category) (Some repo) =
           (case js_get (registry E) category of
              Undefined \<Rightarrow> Inr []
            | _ \<Rightarrow> search_repo E pattern filePattern category repo [])"
  using assms
  by (simp add: search_all_def search_category_def truthy_def split: js_prop.splits sum.splits)

lemma cached_subset_direct:
  assumes build: "buildRepoCache E category repo = (E', Some cache)"
    and stale: "\<not> isCacheValid E category repo"
    and c: "category \<noteq> []" and r: "repo \<noteq> []"
    and hit: "exact_lookup E' pattern ''*'' category repo (rc_searchIndex cache) [] \<noteq> Inr []"
  shows "match_set (searchCodeWithCache E' pattern ''*'' (Some category) (Some repo)) \<subseteq>
         match_set (searchCodeWithCache E pattern ''*'' (Some category) (Some repo))"
proof -
  from buildRepoCache_Some[OF build] obtain st where
    scan: "scanFileStructure E category repo = Inr st"
    and idx: "rc_searchIndex cache = buildSearchIndex E category repo st"
    and save: "saveRepoCache E category repo cache = Inr E'"
    by blast
  note frame = saveRepoCache_frame[OF save]
  have glob: "globby E category repo (''**/'' @ ''*'') = Inr (map fst (fs_files st))"
    using scanFileStructure_files[OF scan] by simp
  have same: "exact_lookup E' = exact_lookup E"
    using frame(3,9) by (rule exact_lookup_same_files)
  show ?thesis
  proof (cases "js_get (registry E) category = Undefined \<or> \<not> path_exists E category repo")
    case True
    then have "search_all E' pattern ''*'' (Some category) (Some repo) = Inr []"
      using frame(1,2) by (auto simp: search_all_single[OF c r] search_repo_def split: js_prop.splits)
    then show ?thesis
      by (simp add: searchCodeWithCache_def match_set_Nil)
  next
    case False
    then have all': "search_all E' pattern ''*'' (Some category) (Some repo) =
        cached_search E' pattern ''*'' category repo (rc_searchIndex cache) []"
      using frame(1,2) buildRepoCache_valid[OF build]
      by (auto simp: search_all_single[OF c r] search_repo_def split: js_prop.splits)
    from False have all: "search_all E pattern ''*'' (Some category) (Some repo) =
        Inr (fold (scan_file E pattern category repo) (map fst (fs_files st)) [])"
      using stale glob
      by (auto simp: search_all_single[OF c r] search_repo_def fallback_scan_def split: js_prop.splits)
    show ?thesis
    proof (cases "exact_lookup E' pattern ''*'' category repo (rc_searchIndex cache) []")
      case (Inl e)
      then show ?thesis
        by (simp add: searchCodeWithCache_def all' cached_search_def match_set_Nil)
    next
      case (Inr rs)
      with hit have ne: "rs \<noteq> []" by simp
      from Inr have "exact_lookup E pattern ''*'' category repo (buildSearchIndex E category repo st) [] = Inr rs"
        by (simp add: same idx)
      from exact_lookup_subset_direct_scan[OF scan this]
      show ?thesis
        using Inr ne by (simp add: searchCodeWithCache_def all all' cached_search_def)
    qed
  qed
qed


section \<open>A repository that contributes nothing\<close>

lemma for_each_append:
  "for_each f (xs @ ys) s = (case for_each f xs s of Inl e \<Rightarrow> Inl e | Inr s' \<Rightarrow> for_each f ys s')"
  by (induction xs arbitrary: s) (auto split: sum.splits)

lemma for_each_skip:
  assumes "\<And>s. f x s = Inr s"
  shows "for_each f (xs @ x # ys) s = for_each f (xs @ ys) s"
  by (simp add: for_each_append assms split: sum.splits)

lemma for_each_cong_elems:
  assumes "\<And>x s. x \<in> set xs \<Longrightarrow> f x s = g x s"
  shows "for_each f xs s = for_each g xs s"
  using assms by (induction xs arbitrary: s) (auto split: sum.splits)

lemma search_repo_registry:
  "search_repo (E\<lparr>registry := reg\<rparr>) = search_repo E"
proof -
  have ff: "file_filter (E\<lparr>registry := reg\<rparr>) = file_filter E"
    unfolding fun_eq_iff file_filter_def by simp
  have ep: "emit_posting (E\<lparr>registry := reg\<rparr>) = emit_posting E"
    unfolding fun_eq_iff emit_posting_def by simp
  have xp: "exact_posting (E\<lparr>registry := reg\<rparr>) = exact_posting E"
    unfolding fun_eq_iff exact_posting_def ff ep by simp
  have xl: "exact_lookup (E\<lparr>registry := reg\<rparr>) = exact_lookup E"
    unfolding fun_eq_iff exact_lookup_def xp by simp
  have fp: "fuzzy_posting (E\<lparr>registry := reg\<rparr>) = fuzzy_posting E"
    unfolding fun_eq_iff fuzzy_posting_def ff ep by simp
  have ft: "fuzzy_term (E\<lparr>registry := reg\<rparr>) = fuzzy_term E"
    unfolding fun_eq_iff fuzzy_term_def fp by simp
  have fz: "fuzzy_fallback (E\<lparr>registry := reg\<rparr>) = fuzzy_fallback E"
    unfolding fun_eq_iff fuzzy_fallback_def ft by simp
  have cs: "cached_search (E\<lparr>registry := reg\<rparr>) = cached_search E"
    unfolding fun_eq_iff cached_search_def xl fz by simp
  have sf: "scan_file (E\<lparr>registry := reg\<rparr>) = scan_file E"
    unfolding fun_eq_iff scan_file_def by simp
  have fs: "fallback_scan (E\<lparr>registry := reg\<rparr>) = fallback_scan E"
    unfolding fun_eq_iff fallback_scan_def sf by simp
  have v: "isCacheValid (E\<lparr>registry := reg\<rparr>) = isCacheValid E"
    unfolding fun_eq_iff isCacheValid_def by (simp split: document.splits)
  have li: "loadSearchIndex (E\<lparr>registry := reg\<rparr>) = loadSearchIndex E"
    unfolding fun_eq_iff loadSearchIndex_def by simp
  show ?thesis
    unfolding fun_eq_iff search_repo_def cs fs v li by simp
qed

lemma fold_scan_file_unreadable:
  assumes "\<forall>f \<in> set files. read_file E category repo f = None"
  shows "fold (scan_file E pattern category repo) files results = results"
  using assms by (induction files arbitrary: results) (simp_all add: scan_file_def)

lemma search_repo_contained_failure:
  assumes "contained_failure E filePattern category repo"
  shows "search_repo E pattern filePattern category repo results = Inr results"
  using assms
  by (auto simp: contained_failure_def search_repo_def fallback_scan_def fold_scan_file_unreadable)

lemma js_get_middle:
  assumes "distinct (map fst (cs1 @ (c, v) # cs2))"
  shows "js_get (cs1 @ (c, v) # cs2) c = Own v"
    and "k \<noteq> c \<Longrightarrow> js_get (cs1 @ (c, v) # cs2) k = js_get (cs1 @ (c, v') # cs2) k"
proof -
  from assms have "map_of (cs1 @ (c, v) # cs2) c = Some v"
    by (intro map_of_is_SomeI) auto
  then show "js_get (cs1 @ (c, v) # cs2) c = Own v"
    by (simp add: js_get_def)
  show "js_get (cs1 @ (c, v) # cs2) k = js_get (cs1 @ (c, v') # cs2) k" if "k \<noteq> c"
    using that by (simp add: js_get_def map_of_append map_add_def split: option.splits)
qed

lemma search_all_without_failed_repo:
  assumes d: "distinct (map fst (registry E))"
    and reg: "registry E = cs1 @ (category, ns1 @ repo # ns2) # cs2"
    and fail: "contained_failure E filePattern category repo"
  shows "search_all E pattern filePattern None None =
         search_all (E\<lparr>registry := cs1 @ (category, ns1 @ ns2) # cs2\<rparr>) pattern filePattern None None"
proof -
  let ?E' = "E\<lparr>registry := cs1 @ (category, ns1 @ ns2) # cs2\<rparr>"
  have d': "distinct (map fst (cs1 @ (category, ns1 @ repo # ns2) # cs2))"
    "distinct (map fst (cs1 @ (category, ns1 @ ns2) # cs2))"
    using d reg by simp_all
  have keys: "map fst (registry ?E') = map fst (registry E)"
    using reg by simp
  have cat: "search_category ?E' pattern filePattern None c results =
             search_category E pattern filePattern None c results" for c results
  proof (cases "c = category")
    case True
    have "for_each (search_repo E pattern filePattern category) (ns1 @ repo # ns2) results =
          for_each (search_repo E pattern filePattern category) (ns1 @ ns2) results"
      by (rule for_each_skip) (rule search_repo_contained_failure[OF fail])
    then show ?thesis
      using True js_get_middle(1)[OF d'(1)] js_get_middle(1)[OF d'(2)] reg
      by (simp add: search_category_def truthy_def search_repo_registry)
  next
    case False
    have "js_get (registry ?E') c = js_get (registry E) c"
      using js_get_middle(2)[OF d'(2) False, of "ns1 @ repo # ns2"] reg by simp
    then show ?thesis
      unfolding search_category_def search_repo_registry by simp
  qed
  show ?thesis
    unfolding search_all_def keys
    by (rule for_each_cong_elems[symmetric]) (rule cat)
qed


section \<open>The records of an exact hit\<close>









section \<open>Searches in the example environments\<close>

lemma env_ranked_direct:
  "distinct (map fst (registry env_ranked))" "scans_directly env_ranked ''*''"
  by (simp_all add: scans_directly_def isCacheValid_def env_ranked_def example_env_def)

lemma env_ranked_matching_files:
  "matching_files env_ranked ''foo'' ''*'' = [(''lib'', ''alpha'', ''a.ts''), (''lib'', ''alpha'', ''b.ts'')]"
  by (simp add: matching_files_def repo_matching_files_def file_matches_def starts_with_def
      env_ranked_def example_env_def)






lemma cached_env_ranked_cached:
  "map (\<lambda>g. (r_file g, map m_line (r_matches g)))
     (projr (cached_search env_ranked_cached ''foo'' ''*'' ''lib'' ''alpha''
        (buildSearchIndex env_ranked ''lib'' ''alpha''
           \<lparr>fs_files = [(''a.ts'', \<lparr>fi_size = 9\<rparr>), (''b.ts'', \<lparr>fi_size = 19\<rparr>)]\<rparr>) [])) =
     [(''a.ts'', [1]), (''a.ts'', [3]), (''b.ts'', [1]), (''b.ts'', [2]), (''b.ts'', [3]),
      (''b.ts'', [4]), (''b.ts'', [5])]"
  "\<not> isl (cached_search env_ranked_cached ''foo'' ''*'' ''lib'' ''alpha''
        (buildSearchIndex env_ranked ''lib'' ''alpha''
           \<lparr>fs_files = [(''a.ts'', \<lparr>fi_size = 9\<rparr>), (''b.ts'', \<lparr>fi_size = 19\<rparr>)]\<rparr>) [])"
  unfolding index_env_ranked
  by (simp_all add: search_eval env_ranked_cached_fields)

lemma fallback_env_ranked:
  "globby env_ranked ''lib'' ''alpha'' ''**/*'' = Inr [''a.ts'', ''b.ts'']"
  "\<not> isl (fallback_scan env_ranked ''foo'' ''*'' ''lib'' ''alpha'' [])"
  by (simp_all add: fallback_scan_def env_ranked_def example_env_def)

lemma scan_env_user_alpha:
  "scanFileStructure env_user ''lib'' ''alpha'' = Inr \<lparr>fs_files = [(''a.ts'', \<lparr>fi_size = 4\<rparr>)]\<rparr>"
  by (simp add: scanFileStructure_def env_user_def example_env_def)

lemma index_env_user_alpha:
  "buildSearchIndex env_user ''lib'' ''alpha'' \<lparr>fs_files = [(''a.ts'', \<lparr>fi_size = 4\<rparr>)]\<rparr> =
     \<lparr>exactTerms = [(''user'', [\<lparr>p_file = ''a.ts'', p_occurrences = 1, p_positions = [1]\<rparr>])],
      terms = [(''user'', [\<lparr>p_file = ''a.ts'', p_occurrences = 2, p_positions = [1]\<rparr>])]\<rparr>"
  by (simp add: index_eval env_user_def example_env_def)

lemma build_env_user_alpha:
  "snd (buildRepoCache env_user ''lib'' ''alpha'') =
     Some \<lparr>rc_metadata = \<lparr>lastCommitHash = ''4b825dc'', totalFiles = 1, totalSize = 4\<rparr>,
            rc_structure = \<lparr>fs_files = [(''a.ts'', \<lparr>fi_size = 4\<rparr>)]\<rparr>,
            rc_searchIndex =
              \<lparr>exactTerms = [(''user'', [\<lparr>p_file = ''a.ts'', p_occurrences = 1, p_positions = [1]\<rparr>])],
               terms = [(''user'', [\<lparr>p_file = ''a.ts'', p_occurrences = 2, p_positions = [1]\<rparr>])]\<rparr>\<rparr>"
proof -
  have rp: "revparse_HEAD env_user ''lib'' ''alpha'' = Inr ''4b825dc\<newline>''"
    and w: "cache_writable env_user ''lib'' ''alpha''"
    by (simp_all add: env_user_def example_env_def)
  show ?thesis
    by (simp add: buildRepoCache_def scan_env_user_alpha getRepositoryMetadata_def rp trim_example
        index_env_user_alpha saveRepoCache_def w Let_def)
qed

lemma env_user_alpha_fields:
  "registry env_user_alpha = [(''lib'', [''alpha'', ''beta''])]"
  "path_exists env_user_alpha = (\<lambda>c r. True)"
  "read_file env_user_alpha =
     (\<lambda>c r. if r = ''alpha'' then map_of [(''a.ts'', ''user'')] else map_of [(''b.ts'', ''getUser'')])"
  "stat_size env_user_alpha ''lib'' ''beta'' ''b.ts'' = Some 7"
  "readdir_ok env_user_alpha ''lib'' ''beta''"
  "cache_writable env_user_alpha ''lib'' ''beta''"
  "globby env_user_alpha ''lib'' ''beta'' ''**/*'' = Inr [''b.ts'']"
  "revparse_HEAD env_user_alpha = (\<lambda>c r. Inr ''4b825dc\<newline>'')"
  "js_regexp env_user_alpha = literal_regexp"
  "metadata_doc env_user_alpha =
     (\<lambda>c r. if c = ''lib'' \<and> r = ''alpha''
             then Parsed \<lparr>lastCommitHash = ''4b825dc'', totalFiles = 1, totalSize = 4\<rparr> else Absent)"
  "searchIndex_doc env_user_alpha =
     (\<lambda>c r. if c = ''lib'' \<and> r = ''alpha'' then Parsed
       \<lparr>exactTerms = [(''user'', [\<lparr>p_file = ''a.ts'', p_occurrences = 1, p_positions = [1]\<rparr>])],
        terms = [(''user'', [\<lparr>p_file = ''a.ts'', p_occurrences = 2, p_positions = [1]\<rparr>])]\<rparr>
      else Absent)"
  unfolding env_user_alpha_def buildRepoCache_frame buildRepoCache_docs[OF build_env_user_alpha]
  by (simp_all add: env_user_def example_env_def fun_eq_iff)

lemma scan_env_user_beta:
  "scanFileStructure env_user_alpha ''lib'' ''beta'' = Inr \<lparr>fs_files = [(''b.ts'', \<lparr>fi_size = 7\<rparr>)]\<rparr>"
  by (simp add: scanFileStructure_def env_user_alpha_fields)

lemma index_env_user_beta:
  "buildSearchIndex env_user_alpha ''lib'' ''beta'' \<lparr>fs_files = [(''b.ts'', \<lparr>fi_size = 7\<rparr>)]\<rparr> =
     \<lparr>exactTerms = [(''getUser'', [\<lparr>p_file = ''b.ts'', p_occurrences = 1, p_positions = [1]\<rparr>])],
      terms = [(''get'', [\<lparr>p_file = ''b.ts'', p_occurrences = 1, p_positions = [1]\<rparr>]),
               (''user'', [\<lparr>p_file = ''b.ts'', p_occurrences = 1, p_positions = [1]\<rparr>]),
               (''getuser'', [\<lparr>p_file = ''b.ts'', p_occurrences = 1, p_positions = [1]\<rparr>])]\<rparr>"
  by (simp add: index_eval env_user_alpha_fields)

lemma build_env_user_beta:
  "snd (buildRepoCache env_user_alpha ''lib'' ''beta'') =
     Some \<lparr>rc_metadata = \<lparr>lastCommitHash = ''4b825dc'', totalFiles = 1, totalSize = 7\<rparr>,
            rc_structure = \<lparr>fs_files = [(''b.ts'', \<lparr>fi_size = 7\<rparr>)]\<rparr>,
            rc_searchIndex =
     \<lparr>exactTerms = [(''getUser'', [\<lparr>p_file = ''b.ts'', p_occurrences = 1, p_positions = [1]\<rparr>])],
      terms = [(''get'', [\<lparr>p_file = ''b.ts'', p_occurrences = 1, p_positions = [1]\<rparr>]),
               (''user'', [\<lparr>p_file = ''b.ts'', p_occurrences = 1, p_positions = [1]\<rparr>]),
               (''getuser'', [\<lparr>p_file = ''b.ts'', p_occurrences = 1, p_positions = [1]\<rparr>])]\<rparr>\<rparr>"
  by (simp add: buildRepoCache_def scan_env_user_beta getRepositoryMetadata_def trim_example
      index_env_user_beta saveRepoCache_def env_user_alpha_fields Let_def)

lemma env_user_cached_fields:
  "registry env_user_cached = [(''lib'', [''alpha'', ''beta''])]"
  "path_exists env_user_cached = (\<lambda>c r. True)"
  "read_file env_user_cached =
     (\<lambda>c r. if r = ''alpha'' then map_of [(''a.ts'', ''user'')] else map_of [(''b.ts'', ''getUser'')])"
  "revparse_HEAD env_user_cached = (\<lambda>c r. Inr ''4b825dc\<newline>'')"
  "js_regexp env_user_cached = literal_regexp"
  "metadata_doc env_user_cached =
     (\<lambda>c r. if c = ''lib'' \<and> r = ''beta''
             then Parsed \<lparr>lastCommitHash = ''4b825dc'', totalFiles = 1, totalSize = 7\<rparr>
             else if c = ''lib'' \<and> r = ''alpha''
             then Parsed \<lparr>lastCommitHash = ''4b825dc'', totalFiles = 1, totalSize = 4\<rparr> else Absent)"
  "searchIndex_doc env_user_cached =
     (\<lambda>c r. if c = ''lib'' \<and> r = ''beta'' then Parsed
     \<lparr>exactTerms = [(''getUser'', [\<lparr>p_file = ''b.ts'', p_occurrences = 1, p_positions = [1]\<rparr>])],
      terms = [(''get'', [\<lparr>p_file = ''b.ts'', p_occurrences = 1, p_positions = [1]\<rparr>]),
               (''user'', [\<lparr>p_file = ''b.ts'', p_occurrences = 1, p_positions = [1]\<rparr>]),
               (''getuser'', [\<lparr>p_file = ''b.ts'', p_occurrences = 1, p_positions = [1]\<rparr>])]\<rparr>
      else if c = ''lib'' \<and> r = ''alpha'' then Parsed
       \<lparr>exactTerms = [(''user'', [\<lparr>p_file = ''a.ts'', p_occurrences = 1, p_positions = [1]\<rparr>])],
        terms = [(''user'', [\<lparr>p_file = ''a.ts'', p_occurrences = 2, p_positions = [1]\<rparr>])]\<rparr>
      else Absent)"
  unfolding env_user_cached_def buildRepoCache_frame buildRepoCache_docs[OF build_env_user_beta]
  by (simp_all add: env_user_alpha_fields fun_eq_iff)

lemma search_env_user_cached:
  "map group_key (searchCodeWithCache env_user_cached ''user'' ''*'' None None) =
     [(''lib'', ''alpha'', ''a.ts'')]"
  "map group_key (searchCodeWithCache env_user_cached ''user'' ''*'' None (Some ''beta'')) =
     [(''lib'', ''beta'', ''b.ts''), (''lib'', ''beta'', ''b.ts'')]"
  "map group_key (searchCodeWithCache env_user_cached_rev ''user'' ''*'' None None) =
     [(''lib'', ''beta'', ''b.ts''), (''lib'', ''beta'', ''b.ts''), (''lib'', ''alpha'', ''a.ts'')]"
  by (simp_all add: search_eval env_user_cached_rev_def env_user_cached_fields group_key_def)

lemma exact_env_user_beta:
  "isCacheValid env_user_cached ''lib'' ''beta''"
  "loadSearchIndex env_user_cached ''lib'' ''beta'' = Some
     \<lparr>exactTerms = [(''getUser'', [\<lparr>p_file = ''b.ts'', p_occurrences = 1, p_positions = [1]\<rparr>])],
      terms = [(''get'', [\<lparr>p_file = ''b.ts'', p_occurrences = 1, p_positions = [1]\<rparr>]),
               (''user'', [\<lparr>p_file = ''b.ts'', p_occurrences = 1, p_positions = [1]\<rparr>]),
               (''getuser'', [\<lparr>p_file = ''b.ts'', p_occurrences = 1, p_positions = [1]\<rparr>])]\<rparr>"
  "exact_lookup env_user_cached ''user'' ''*'' ''lib'' ''beta''
     \<lparr>exactTerms = [(''getUser'', [\<lparr>p_file = ''b.ts'', p_occurrences = 1, p_positions = [1]\<rparr>])],
      terms = [(''get'', [\<lparr>p_file = ''b.ts'', p_occurrences = 1, p_positions = [1]\<rparr>]),
               (''user'', [\<lparr>p_file = ''b.ts'', p_occurrences = 1, p_positions = [1]\<rparr>]),
               (''getuser'', [\<lparr>p_file = ''b.ts'', p_occurrences = 1, p_positions = [1]\<rparr>])]\<rparr> [] = Inr []"
  by (simp_all add: search_eval env_user_cached_fields)


lemma search_env_glob_fails:
  "searchCodeWithCache env_glob_fails ''foo'' ''*'' None None = []"
  "map group_key (searchCodeWithCache env_glob_fails ''foo'' ''*'' None (Some ''alpha'')) =
     [(''lib'', ''alpha'', ''a.ts'')]"
  by (simp_all add: search_eval env_glob_fails_def example_env_def group_key_def)

lemma env_beta_deleted_failure:
  "distinct (map fst (registry env_beta_deleted))"
  "registry env_beta_deleted = [] @ (''lib'', [''alpha''] @ ''beta'' # []) # []"
  "contained_failure env_beta_deleted ''*'' ''lib'' ''beta''"
  by (simp_all add: contained_failure_def env_beta_deleted_def example_env_def)

lemma search_env_beta_deleted_rest:
  "map group_key (searchCodeWithCache (env_beta_deleted\<lparr>registry := [] @ (''lib'', [''alpha''] @ []) # []\<rparr>)
     ''foo'' ''*'' None None) = [(''lib'', ''alpha'', ''a.ts'')]"
  by (simp add: search_eval env_beta_deleted_def example_env_def group_key_def)

lemma scan_env_short:
  "scanFileStructure env_short ''lib'' ''alpha'' = Inr \<lparr>fs_files = [(''a.ts'', \<lparr>fi_size = 2\<rparr>)]\<rparr>"
  by (simp add: scanFileStructure_def env_short_def example_env_def)

lemma index_env_short:
  "buildSearchIndex env_short ''lib'' ''alpha'' \<lparr>fs_files = [(''a.ts'', \<lparr>fi_size = 2\<rparr>)]\<rparr> =
     \<lparr>exactTerms = [], terms = []\<rparr>"
  by (simp add: index_eval env_short_def example_env_def)

lemma build_env_short:
  "snd (buildRepoCache env_short ''lib'' ''alpha'') =
     Some \<lparr>rc_metadata = \<lparr>lastCommitHash = ''4b825dc'', totalFiles = 1, totalSize = 2\<rparr>,
            rc_structure = \<lparr>fs_files = [(''a.ts'', \<lparr>fi_size = 2\<rparr>)]\<rparr>,
            rc_searchIndex = \<lparr>exactTerms = [], terms = []\<rparr>\<rparr>"
proof -
  have rp: "revparse_HEAD env_short ''lib'' ''alpha'' = Inr ''4b825dc\<newline>''"
    and w: "cache_writable env_short ''lib'' ''alpha''"
    by (simp_all add: env_short_def example_env_def)
  show ?thesis
    by (simp add: buildRepoCache_def scan_env_short getRepositoryMetadata_def rp trim_example
        index_env_short saveRepoCache_def w Let_def)
qed

lemma env_short_cached_fields:
  "registry env_short_cached = [(''lib'', [''alpha''])]"
  "path_exists env_short_cached = (\<lambda>c r. True)"
  "read_file env_short_cached = (\<lambda>c r. map_of [(''a.ts'', ''ab'')])"
  "revparse_HEAD env_short_cached = (\<lambda>c r. Inr ''4b825dc\<newline>'')"
  "js_regexp env_short_cached = literal_regexp"
  "metadata_doc env_short_cached ''lib'' ''alpha'' =
     Parsed \<lparr>lastCommitHash = ''4b825dc'', totalFiles = 1, totalSize = 2\<rparr>"
  "searchIndex_doc env_short_cached ''lib'' ''alpha'' = Parsed \<lparr>exactTerms = [], terms = []\<rparr>"
  unfolding env_short_cached_def buildRepoCache_frame buildRepoCache_docs[OF build_env_short]
  by (simp_all add: env_short_def example_env_def fun_eq_iff)

lemma search_env_short:
  "\<not> isCacheValid env_short ''lib'' ''alpha''"
  "map group_key (searchCodeWithCache env_short ''ab'' ''*'' None None) = [(''lib'', ''alpha'', ''a.ts'')]"
  by (simp_all add: search_eval env_short_def example_env_def group_key_def)

lemma search_env_short_cached:
  "isCacheValid env_short_cached ''lib'' ''alpha''"
  "searchCodeWithCache env_short_cached ''ab'' ''*'' None None = []"
  by (simp_all add: search_eval env_short_cached_fields)

lemma hit_env_ranked_cached:
  "exact_lookup env_ranked_cached ''foo'' ''*'' ''lib'' ''alpha''
     \<lparr>exactTerms = [(''foo'', [\<lparr>p_file = ''a.ts'', p_occurrences = 2, p_positions = [1, 3]\<rparr>,
                                \<lparr>p_file = ''b.ts'', p_occurrences = 5, p_positions = [1, 2, 3, 4, 5]\<rparr>])],
      terms = [(''foo'', [\<lparr>p_file = ''a.ts'', p_occurrences = 4, p_positions = [1, 3]\<rparr>,
                           \<lparr>p_file = ''b.ts'', p_occurrences = 10, p_positions = [1, 2, 3, 4, 5]\<rparr>])]\<rparr> []
   \<noteq> Inr []"
  by (simp add: search_eval env_ranked_cached_fields)

lemma env_ranked_not_valid: "\<not> isCacheValid env_ranked ''lib'' ''alpha''"
  by (simp add: isCacheValid_def env_ranked_def example_env_def)


section \<open>C1: the number of groups returned\<close>





section \<open>C2: when the fuzzy fallback runs\<close>

text \<open>
  C2 says that the fuzzy fallback over \<open>terms\<close> is attempted for a repository exactly
  when the exact-term lookup for that repository found nothing, so that exact and fuzzy
  results never mix.  The code tests \<open>results.length === 0\<close> on the list shared by all
  repositories of the query.  In \<open>env_user_cached\<close> both caches are valid; the pattern
  \<open>user\<close> is an exact term of \<open>alpha\<close> only, and a sub-token in \<open>terms\<close> of \<open>beta\<close>.
  Searching both, the exact lookup in \<open>beta\<close> finds nothing and yet \<open>beta\<close> contributes
  nothing, although searched alone it contributes its fuzzy matches; and with \<open>beta\<close>
  before \<open>alpha\<close> in the registry, fuzzy results of \<open>beta\<close> and exact results of
  \<open>alpha\<close> stand in one response.
\<close>

theorem fuzzy_fallback_tests_shared_results:
  "isCacheValid env_user_cached ''lib'' ''beta'' \<and>
   loadSearchIndex env_user_cached ''lib'' ''beta'' = Some
     \<lparr>exactTerms = [(''getUser'', [\<lparr>p_file = ''b.ts'', p_occurrences = 1, p_positions = [1]\<rparr>])],
      terms = [(''get'', [\<lparr>p_file = ''b.ts'', p_occurrences = 1, p_positions = [1]\<rparr>]),
               (''user'', [\<lparr>p_file = ''b.ts'', p_occurrences = 1, p_positions = [1]\<rparr>]),
               (''getuser'', [\<lparr>p_file = ''b.ts'', p_occurrences = 1, p_positions = [1]\<rparr>])]\<rparr> \<and>
   exact_lookup env_user_cached ''user'' ''*'' ''lib'' ''beta''
     \<lparr>exactTerms = [(''getUser'', [\<lparr>p_file = ''b.ts'', p_occurrences = 1, p_positions = [1]\<rparr>])],
      terms = [(''get'', [\<lparr>p_file = ''b.ts'', p_occurrences = 1, p_positions = [1]\<rparr>]),
               (''user'', [\<lparr>p_file = ''b.ts'', p_occurrences = 1, p_positions = [1]\<rparr>]),
               (''getuser'', [\<lparr>p_file = ''b.ts'', p_occurrences = 1, p_positions = [1]\<rparr>])]\<rparr> [] = Inr [] \<and>
   map group_key (searchCodeWithCache env_user_cached ''user'' ''*'' None None) =
     [(''lib'', ''alpha'', ''a.ts'')] \<and>
   map group_key (searchCodeWithCache env_user_cached ''user'' ''*'' None (Some ''beta'')) =
     [(''lib'', ''beta'', ''b.ts''), (''lib'', ''beta'', ''b.ts'')] \<and>
   map group_key (searchCodeWithCache env_user_cached_rev ''user'' ''*'' None None) =
     [(''lib'', ''beta'', ''b.ts''), (''lib'', ''beta'', ''b.ts''), (''lib'', ''alpha'', ''a.ts'')]"
  using exact_env_user_beta search_env_user_cached by (intro conjI)


section \<open>C3: cache validity\<close>

text \<open>
  C3: \<open>isCacheValid\<close> is true exactly when the metadata document exists and parses, the
  live revision can be read, and the stored revision equals it; in every other case
  (absent or unusable document, failing \<open>rev-parse\<close>, different revision) it is false,
  and it never raises: it is a total function to \<open>bool\<close>.  After a successful
  \<open>buildRepoCache\<close> it is true; when the repository's revision then changes, or can
  no longer be read, without a rebuild, it is false.
\<close>

theorem cache_validity:
  "(isCacheValid E category repo \<longleftrightarrow>
     (\<exists>metadata currentHash.
        metadata_doc E category repo = Parsed metadata \<and>
        revparse_HEAD E category repo = Inr currentHash \<and>
        lastCommitHash metadata = trim currentHash)) \<and>
   (buildRepoCache E category repo = (E', Some cache) \<longrightarrow>
      isCacheValid E' category repo \<and>
      (\<forall>head. (case head category repo of Inl e \<Rightarrow> True
                | Inr h \<Rightarrow> trim h \<noteq> lastCommitHash (rc_metadata cache)) \<longrightarrow>
         \<not> isCacheValid (E'\<lparr>revparse_HEAD := head\<rparr>) category repo))"
proof (intro conjI impI allI)
  show "isCacheValid E category repo \<longleftrightarrow>
     (\<exists>metadata currentHash.
        metadata_doc E category repo = Parsed metadata \<and>
        revparse_HEAD E category repo = Inr currentHash \<and>
        lastCommitHash metadata = trim currentHash)"
    by (rule isCacheValid_iff)
next
  assume b: "buildRepoCache E category repo = (E', Some cache)"
  from buildRepoCache_Some[OF b] obtain currentHash where
    h: "revparse_HEAD E category repo = Inr currentHash"
      "lastCommitHash (rc_metadata cache) = trim currentHash"
    and save: "saveRepoCache E category repo cache = Inr E'"
    by blast
  show "isCacheValid E' category repo"
    using h saveRepoCache_frame(7,10)[OF save] by (simp add: isCacheValid_def)
next
  fix head :: "string \<Rightarrow> string \<Rightarrow> js_error + string"
  assume b: "buildRepoCache E category repo = (E', Some cache)"
    and changed: "case head category repo of Inl e \<Rightarrow> True
                  | Inr h \<Rightarrow> trim h \<noteq> lastCommitHash (rc_metadata cache)"
  from buildRepoCache_Some[OF b] have save: "saveRepoCache E category repo cache = Inr E'"
    by blast
  show "\<not> isCacheValid (E'\<lparr>revparse_HEAD := head\<rparr>) category repo"
    using changed saveRepoCache_frame(10)[OF save]
    by (auto simp: isCacheValid_def split: sum.splits)
qed


theorem cache_validity_witness:
  "snd (buildRepoCache env_twice ''lib'' ''alpha'') \<noteq> None \<and>
   \<not> isCacheValid env_twice ''lib'' ''alpha'' \<and>
   isCacheValid (fst (buildRepoCache env_twice ''lib'' ''alpha'')) ''lib'' ''alpha'' \<and>
   \<not> isCacheValid ((fst (buildRepoCache env_twice ''lib'' ''alpha''))
                     \<lparr>revparse_HEAD := (\<lambda>c r. Inr ''9f2c1aa\<newline>'')\<rparr>) ''lib'' ''alpha''"
proof -
  let ?cache = "\<lparr>rc_metadata = \<lparr>lastCommitHash = ''4b825dc'', totalFiles = 1, totalSize = 7\<rparr>,
            rc_structure = \<lparr>fs_files = [(''a.ts'', \<lparr>fi_size = 7\<rparr>)]\<rparr>,
            rc_searchIndex =
              \<lparr>exactTerms = [(''foo'', [\<lparr>p_file = ''a.ts'', p_occurrences = 2, p_positions = [1, 1]\<rparr>])],
               terms = [(''foo'', [\<lparr>p_file = ''a.ts'', p_occurrences = 4, p_positions = [1]\<rparr>])]\<rparr>\<rparr>"
  define E' where "E' = fst (buildRepoCache env_twice ''lib'' ''alpha'')"
  have b: "buildRepoCache env_twice ''lib'' ''alpha'' = (E', Some ?cache)"
    unfolding E'_def using build_env_twice by (simp add: prod_eq_iff)
  note inst = cache_validity[of env_twice "''lib''" "''alpha''" E' ?cache]
  from inst b have valid: "isCacheValid E' ''lib'' ''alpha''"
    by blast
  from inst b have later: "\<forall>head. (case head ''lib'' ''alpha'' of Inl e \<Rightarrow> True
                | Inr h \<Rightarrow> trim h \<noteq> lastCommitHash (rc_metadata ?cache)) \<longrightarrow>
         \<not> isCacheValid (E'\<lparr>revparse_HEAD := head\<rparr>) ''lib'' ''alpha''"
    by blast
  have stale: "\<not> isCacheValid (E'\<lparr>revparse_HEAD := (\<lambda>c r. Inr ''9f2c1aa\<newline>'')\<rparr>) ''lib'' ''alpha''"
    using later[rule_format, of "\<lambda>c r. Inr ''9f2c1aa\<newline>''"]
    by (simp add: trim_def is_space_def)
  have before: "\<not> isCacheValid env_twice ''lib'' ''alpha''"
    by (simp add: isCacheValid_def env_twice_def example_env_def)
  from b have "snd (buildRepoCache env_twice ''lib'' ''alpha'') \<noteq> None"
    by simp
  with before valid stale show ?thesis
    unfolding E'_def by (intro conjI)
qed


section \<open>C4: the failure of one repository\<close>

text \<open>
  C4, as stated, says that a failure confined to one repository never aborts the whole
  query.  In \<open>env_glob_fails\<close> the repository \<open>alpha\<close> has a matching file and the
  directory enumeration of \<open>beta\<close> raises an error: the call of \<open>globby\<close> stands
  outside every inner \<open>try\<close>, the exception reaches the outer \<open>catch\<close>, and the query
  returns the empty list, without the result of \<open>alpha\<close>.
\<close>

theorem enumeration_failure_empties_query:
  "searchCodeWithCache env_glob_fails ''foo'' ''*'' None None = [] \<and>
   map group_key (searchCodeWithCache env_glob_fails ''foo'' ''*'' None (Some ''alpha'')) =
     [(''lib'', ''alpha'', ''a.ts'')]"
  using search_env_glob_fails by (intro conjI)

text \<open>
  C4, amended: a repository whose working tree is absent when it is reached (deleted),
  or whose cache is valid while its search index cannot be loaded, or whose files can
  be listed but not read, contributes zero results and does not abort the query: the
  search over all repositories returns exactly what it returns for the remaining
  repositories.
\<close>

theorem contained_failure_is_isolated:
  assumes "distinct (map fst (registry E))"
    and "registry E = cs1 @ (category, ns1 @ repo # ns2) # cs2"
    and "contained_failure E filePattern category repo"
  shows "search_repo E pattern filePattern category repo results = Inr results \<and>
         searchCodeWithCache E pattern filePattern None None =
         searchCodeWithCache (E\<lparr>registry := cs1 @ (category, ns1 @ ns2) # cs2\<rparr>)
           pattern filePattern None None"
  using search_repo_contained_failure[OF assms(3), of pattern results]
    search_all_without_failed_repo[OF assms, of pattern]
  by (simp add: searchCodeWithCache_def)

theorem contained_failure_is_isolated_witness:
  "distinct (map fst (registry env_beta_deleted)) \<and>
   registry env_beta_deleted = [] @ (''lib'', [''alpha''] @ ''beta'' # []) # [] \<and>
   contained_failure env_beta_deleted ''*'' ''lib'' ''beta'' \<and>
   search_repo env_beta_deleted ''foo'' ''*'' ''lib'' ''beta'' [] = Inr [] \<and>
   map group_key (searchCodeWithCache env_beta_deleted ''foo'' ''*'' None None) =
     [(''lib'', ''alpha'', ''a.ts'')]"
proof -
  note inst = contained_failure_is_isolated[OF env_beta_deleted_failure, of "''foo''" "[]"]
  from inst have step: "search_repo env_beta_deleted ''foo'' ''*'' ''lib'' ''beta'' [] = Inr []"
    by (rule conjunct1)
  from inst have "searchCodeWithCache env_beta_deleted ''foo'' ''*'' None None =
      searchCodeWithCache (env_beta_deleted\<lparr>registry := [] @ (''lib'', [''alpha''] @ []) # []\<rparr>)
        ''foo'' ''*'' None None"
    by (rule conjunct2)
  then have "map group_key (searchCodeWithCache env_beta_deleted ''foo'' ''*'' None None) =
      [(''lib'', ''alpha'', ''a.ts'')]"
    by (simp only: search_env_beta_deleted_rest)
  with env_beta_deleted_failure step show ?thesis
    by (intro conjI)
qed


section \<open>C5: the direct scan and the cached search\<close>

text \<open>
  C5, as stated, says that the direct scan and the search of a valid cache built from
  the same working tree return the same matches.  In \<open>env_short\<close> the file \<open>a.ts\<close> is the
  line \<open>ab\<close>: the direct scan reports it for the pattern \<open>ab\<close>, since the line contains
  the pattern; the index holds no token shorter than three characters, so after
  \<open>buildRepoCache\<close> the search of the valid cache returns nothing.
\<close>

theorem direct_scan_finds_more:
  "\<not> isCacheValid env_short ''lib'' ''alpha'' \<and>
   map group_key (searchCodeWithCache env_short ''ab'' ''*'' None None) = [(''lib'', ''alpha'', ''a.ts'')] \<and>
   snd (buildRepoCache env_short ''lib'' ''alpha'') \<noteq> None \<and>
   isCacheValid env_short_cached ''lib'' ''alpha'' \<and>
   searchCodeWithCache env_short_cached ''ab'' ''*'' None None = []"
  using search_env_short search_env_short_cached build_env_short by simp

text \<open>
  C5, amended: for a repository named by the query, searched with the file pattern
  \<open>*\<close>, whenever the exact-term lookup in a valid cache built from the working tree
  finds something, every match the cached search returns (file, line, content and
  context) is also returned by the direct scan of that working tree.  The converse does
  not hold: the direct scan reports every line that contains the pattern as a
  substring, also where the pattern is no indexed token.
\<close>

theorem cached_exact_matches_in_direct_scan:
  assumes "buildRepoCache E category repo = (E', Some cache)"
    and "\<not> isCacheValid E category repo"
    and "category \<noteq> []" and "repo \<noteq> []"
    and "exact_lookup E' pattern ''*'' category repo (rc_searchIndex cache) [] \<noteq> Inr []"
  shows "match_set (searchCodeWithCache E' pattern ''*'' (Some category) (Some repo)) \<subseteq>
         match_set (searchCodeWithCache E pattern ''*'' (Some category) (Some repo))"
  using assms by (rule cached_subset_direct)

theorem cached_exact_matches_in_direct_scan_witness:
  "buildRepoCache env_ranked ''lib'' ''alpha'' =
     (env_ranked_cached,
      Some \<lparr>rc_metadata = \<lparr>lastCommitHash = ''4b825dc'', totalFiles = 2, totalSize = 28\<rparr>,
            rc_structure = \<lparr>fs_files = [(''a.ts'', \<lparr>fi_size = 9\<rparr>), (''b.ts'', \<lparr>fi_size = 19\<rparr>)]\<rparr>,
            rc_searchIndex =
     \<lparr>exactTerms = [(''foo'', [\<lparr>p_file = ''a.ts'', p_occurrences = 2, p_positions = [1, 3]\<rparr>,
                                \<lparr>p_file = ''b.ts'', p_occurrences = 5, p_positions = [1, 2, 3, 4, 5]\<rparr>])],
      terms = [(''foo'', [\<lparr>p_file = ''a.ts'', p_occurrences = 4, p_positions = [1, 3]\<rparr>,
                           \<lparr>p_file = ''b.ts'', p_occurrences = 10, p_positions = [1, 2, 3, 4, 5]\<rparr>])]\<rparr>\<rparr>) \<and>
   \<not> isCacheValid env_ranked ''lib'' ''alpha'' \<and>
   ''lib'' \<noteq> [] \<and> ''alpha'' \<noteq> [] \<and>
   exact_lookup env_ranked_cached ''foo'' ''*'' ''lib'' ''alpha''
     \<lparr>exactTerms = [(''foo'', [\<lparr>p_file = ''a.ts'', p_occurrences = 2, p_positions = [1, 3]\<rparr>,
                                \<lparr>p_file = ''b.ts'', p_occurrences = 5, p_positions = [1, 2, 3, 4, 5]\<rparr>])],
      terms = [(''foo'', [\<lparr>p_file = ''a.ts'', p_occurrences = 4, p_positions = [1, 3]\<rparr>,
                           \<lparr>p_file = ''b.ts'', p_occurrences = 10, p_positions = [1, 2, 3, 4, 5]\<rparr>])]\<rparr> []
     \<noteq> Inr [] \<and>
   match_set (searchCodeWithCache env_ranked_cached ''foo'' ''*'' (Some ''lib'') (Some ''alpha'')) \<subseteq>
   match_set (searchCodeWithCache env_ranked ''foo'' ''*'' (Some ''lib'') (Some ''alpha''))"
proof -
  let ?idx = "\<lparr>exactTerms = [(''foo'', [\<lparr>p_file = ''a.ts'', p_occurrences = 2, p_positions = [1, 3]\<rparr>,
                                \<lparr>p_file = ''b.ts'', p_occurrences = 5, p_positions = [1, 2, 3, 4, 5]\<rparr>])],
      terms = [(''foo'', [\<lparr>p_file = ''a.ts'', p_occurrences = 4, p_positions = [1, 3]\<rparr>,
                           \<lparr>p_file = ''b.ts'', p_occurrences = 10, p_positions = [1, 2, 3, 4, 5]\<rparr>])]\<rparr>"
  let ?cache = "\<lparr>rc_metadata = \<lparr>lastCommitHash = ''4b825dc'', totalFiles = 2, totalSize = 28\<rparr>,
            rc_structure = \<lparr>fs_files = [(''a.ts'', \<lparr>fi_size = 9\<rparr>), (''b.ts'', \<lparr>fi_size = 19\<rparr>)]\<rparr>,
            rc_searchIndex = ?idx\<rparr>"
  have b: "buildRepoCache env_ranked ''lib'' ''alpha'' = (env_ranked_cached, Some ?cache)"
    using build_env_ranked by (simp add: prod_eq_iff env_ranked_cached_def)
  have c: "''lib'' \<noteq> []" and r: "''alpha'' \<noteq> []" by simp_all
  have hit: "exact_lookup env_ranked_cached ''foo'' ''*'' ''lib'' ''alpha'' (rc_searchIndex ?cache) [] \<noteq> Inr []"
    using hit_env_ranked_cached by simp
  from cached_exact_matches_in_direct_scan[OF b env_ranked_not_valid c r hit]
  have "match_set (searchCodeWithCache env_ranked_cached ''foo'' ''*'' (Some ''lib'') (Some ''alpha'')) \<subseteq>
        match_set (searchCodeWithCache env_ranked ''foo'' ''*'' (Some ''lib'') (Some ''alpha''))" .
  with b env_ranked_not_valid c r hit_env_ranked_cached show ?thesis
    by (intro conjI)
qed


section \<open>C6: the order of the groups\<close>

text \<open>
  C6, as stated, says that a file with 5 matches comes before a file with 2.  In
  \<open>env_ranked\<close> the file \<open>a.ts\<close> has 2 matching lines and \<open>b.ts\<close> has 5, and the
  result lists \<open>a.ts\<close> first: nothing sorts the result.
\<close>

theorem two_matches_before_five:
  "map (\<lambda>g. (r_file g, length (r_matches g))) (searchCodeWithCache env_ranked ''foo'' ''*'' None None) =
     [(''a.ts'', 2), (''b.ts'', 5)]"
  by (rule search_env_ranked)

text \<open>
  C6, amended: the groups are returned in discovery order, whatever the number of
  matches in each file: where every repository is scanned directly, the groups are
  those of the categories in the order of the registry, within a category those of its
  repositories in order, and within a repository one group per file with a matching
  line, in the order in which the files are listed.
\<close>

theorem results_in_discovery_order:
  assumes "distinct (map fst (registry E))" and "scans_directly E filePattern"
  shows "map group_key (searchCodeWithCache E pattern filePattern None None) =
           matching_files E pattern filePattern"
  using assms by (rule searchCodeWithCache_direct)

theorem results_in_discovery_order_witness:
  "distinct (map fst (registry env_ranked)) \<and> scans_directly env_ranked ''*'' \<and>
   map group_key (searchCodeWithCache env_ranked ''foo'' ''*'' None None) =
     [(''lib'', ''alpha'', ''a.ts''), (''lib'', ''alpha'', ''b.ts'')]"
  using results_in_discovery_order[OF env_ranked_direct, of "''foo''"] env_ranked_direct
  by (simp add: env_ranked_matching_files)


section \<open>C7: one record per file\<close>

text \<open>
  C7 says that all matches of one file form a single record, so that no two records of
  a response share their category, repository and file.  The direct scan does so: in
  \<open>env_ranked\<close>, where \<open>foo\<close> stands on two lines of \<open>a.ts\<close> and on five of \<open>b.ts\<close>, it
  returns one record for each file.  The cached path pushes a record inside its loop
  over the positions of a posting: after \<open>buildRepoCache\<close> on the same working tree
  (\<open>env_ranked_cached\<close>) the same search returns seven records, two of them for
  \<open>a.ts\<close> and five for \<open>b.ts\<close>.
\<close>

theorem cached_search_repeats_file:
  "map group_key (searchCodeWithCache env_ranked ''foo'' ''*'' None None) =
     [(''lib'', ''alpha'', ''a.ts''), (''lib'', ''alpha'', ''b.ts'')] \<and>
   map group_key (searchCodeWithCache env_ranked_cached ''foo'' ''*'' None None) =
     [(''lib'', ''alpha'', ''a.ts''), (''lib'', ''alpha'', ''a.ts''),
      (''lib'', ''alpha'', ''b.ts''), (''lib'', ''alpha'', ''b.ts''), (''lib'', ''alpha'', ''b.ts''),
      (''lib'', ''alpha'', ''b.ts''), (''lib'', ''alpha'', ''b.ts'')]"
proof -
  have "map group_key (searchCodeWithCache env_ranked ''foo'' ''*'' None None) =
          matching_files env_ranked ''foo'' ''*''"
    using env_ranked_direct by (rule searchCodeWithCache_direct)
  then show ?thesis
    by (simp add: env_ranked_matching_files search_env_ranked_cached)
qed

text \<open>
  The two paths in general: every record of the cached path holds exactly one match;
  the direct scan returns one record per file (no file twice when the listing names no
  file twice), each with its matches in increasing line order.
\<close>

theorem records_per_search_path:
  "(cached_search E pattern filePattern category repo idx [] = Inr rs \<longrightarrow>
      (\<forall>g \<in> set rs. length (r_matches g) = 1)) \<and>
   (globby E category repo (''**/'' @ filePattern) = Inr files \<and> distinct files \<and>
    fallback_scan E pattern filePattern category repo [] = Inr rs' \<longrightarrow>
      distinct (map group_key rs') \<and>
      (\<forall>g \<in> set rs'. r_matches g \<noteq> [] \<and> sorted_wrt (<) (map m_line (r_matches g))))"
  using cached_search_single[of "[]" E pattern filePattern category repo idx rs]
    fallback_scan_one_group_per_file[of E category repo filePattern files pattern rs']
  by simp

theorem records_per_search_path_witness:
  "\<not> isl (cached_search env_ranked_cached ''foo'' ''*'' ''lib'' ''alpha''
        (buildSearchIndex env_ranked ''lib'' ''alpha''
           \<lparr>fs_files = [(''a.ts'', \<lparr>fi_size = 9\<rparr>), (''b.ts'', \<lparr>fi_size = 19\<rparr>)]\<rparr>) []) \<and>
   length (projr (cached_search env_ranked_cached ''foo'' ''*'' ''lib'' ''alpha''
        (buildSearchIndex env_ranked ''lib'' ''alpha''
           \<lparr>fs_files = [(''a.ts'', \<lparr>fi_size = 9\<rparr>), (''b.ts'', \<lparr>fi_size = 19\<rparr>)]\<rparr>) [])) = 7 \<and>
   length (r_matches (hd (projr (cached_search env_ranked_cached ''foo'' ''*'' ''lib'' ''alpha''
        (buildSearchIndex env_ranked ''lib'' ''alpha''
           \<lparr>fs_files = [(''a.ts'', \<lparr>fi_size = 9\<rparr>), (''b.ts'', \<lparr>fi_size = 19\<rparr>)]\<rparr>) [])))) = 1 \<and>
   globby env_ranked ''lib'' ''alpha'' ''**/*'' = Inr [''a.ts'', ''b.ts''] \<and>
   distinct [''a.ts'', ''b.ts''] \<and>
   \<not> isl (fallback_scan env_ranked ''foo'' ''*'' ''lib'' ''alpha'' []) \<and>
   distinct (map group_key (projr (fallback_scan env_ranked ''foo'' ''*'' ''lib'' ''alpha'' [])))"
proof -
  define rs where "rs = projr (cached_search env_ranked_cached ''foo'' ''*'' ''lib'' ''alpha''
        (buildSearchIndex env_ranked ''lib'' ''alpha''
           \<lparr>fs_files = [(''a.ts'', \<lparr>fi_size = 9\<rparr>), (''b.ts'', \<lparr>fi_size = 19\<rparr>)]\<rparr>) [])"
  define rs' where "rs' = projr (fallback_scan env_ranked ''foo'' ''*'' ''lib'' ''alpha'' [])"
  have c: "cached_search env_ranked_cached ''foo'' ''*'' ''lib'' ''alpha''
        (buildSearchIndex env_ranked ''lib'' ''alpha''
           \<lparr>fs_files = [(''a.ts'', \<lparr>fi_size = 9\<rparr>), (''b.ts'', \<lparr>fi_size = 19\<rparr>)]\<rparr>) [] = Inr rs"
    unfolding rs_def using cached_env_ranked_cached(2) by (simp add: sum.collapse(2))
  have f: "fallback_scan env_ranked ''foo'' ''*'' ''lib'' ''alpha'' [] = Inr rs'"
    unfolding rs'_def using fallback_env_ranked(2) by (simp add: sum.collapse(2))
  have g: "globby env_ranked ''lib'' ''alpha'' (''**/'' @ ''*'') = Inr [''a.ts'', ''b.ts'']"
    using fallback_env_ranked(1) by simp
  have d: "distinct [''a.ts'', ''b.ts'']" by simp
  have "length (map (\<lambda>g. (r_file g, map m_line (r_matches g))) rs) = 7"
    unfolding rs_def cached_env_ranked_cached(1) by simp
  then have len: "length rs = 7"
    by (simp only: length_map)
  then have hd: "hd rs \<in> set rs"
    by (cases rs) auto
  note inst = records_per_search_path[where E = env_ranked_cached and pattern = "''foo''"
      and filePattern = "''*''" and category = "''lib''" and repo = "''alpha''"
      and idx = "buildSearchIndex env_ranked ''lib'' ''alpha''
           \<lparr>fs_files = [(''a.ts'', \<lparr>fi_size = 9\<rparr>), (''b.ts'', \<lparr>fi_size = 19\<rparr>)]\<rparr>"
      and rs = rs]
  from inst c have "\<forall>g \<in> set rs. length (r_matches g) = 1"
    by blast
  with hd have one: "length (r_matches (hd rs)) = 1"
    by blast
  note inst' = records_per_search_path[where E = env_ranked and pattern = "''foo''"
      and filePattern = "''*''" and category = "''lib''" and repo = "''alpha''"
      and files = "[''a.ts'', ''b.ts'']" and rs' = rs']
  from inst' g d f have dist: "distinct (map group_key rs')"
    by blast
  from cached_env_ranked_cached(2) len one fallback_env_ranked d dist show ?thesis
    unfolding rs_def rs'_def by (intro conjI)
qed


section \<open>C8: which files are indexed\<close>

text \<open>
  C8, as stated, says that a file of 1 MiB or more contributes no posting.  The file
  \<open>a.ts\<close> of \<open>env_mib\<close> has exactly $2^{20}$ bytes, \<open>scanFileStructure\<close> records that
  size, and \<open>buildSearchIndex\<close> indexes it: the test is \<open>info.size > 1024 * 1024\<close>.
\<close>

theorem one_mib_file_is_indexed:
  "scanFileStructure env_mib ''lib'' ''alpha'' = Inr \<lparr>fs_files = [(''a.ts'', \<lparr>fi_size = 2 ^ 20\<rparr>)]\<rparr> \<and>
   exactTerms (buildSearchIndex env_mib ''lib'' ''alpha'' \<lparr>fs_files = [(''a.ts'', \<lparr>fi_size = 2 ^ 20\<rparr>)]\<rparr>) =
     [(''foo'', [\<lparr>p_file = ''a.ts'', p_occurrences = 1, p_positions = [1]\<rparr>])]"
  by (simp add: scan_env_mib index_env_mib)

text \<open>
  C8, amended: every posting of \<open>exactTerms\<close> and of \<open>terms\<close> names a file of the
  structure whose recorded size is at most 1 MiB ($\le 2^{20}$ bytes), whose name ends in
  an extension of the allow-list and which could be read; so, the names of the structure
  being distinct, a file larger than 1 MiB or without such an extension is named by no
  posting.  Conversely, when such a file could be read and its indexing throws no
  exception (\<open>indexes_cleanly\<close>: none of its tokens names a property inherited from
  \<open>Object.prototype\<close>), every token of it that is not skipped has a posting of the file in
  \<open>exactTerms\<close>, and each of its sub-tokens one in \<open>terms\<close>.
\<close>

theorem postings_from_indexable_files:
  "(\<forall>(t, ps) \<in> set (exactTerms (buildSearchIndex E category repo structure))
                 \<union> set (terms (buildSearchIndex E category repo structure)).
      \<forall>p \<in> set ps. \<exists>info. (p_file p, info) \<in> set (fs_files structure) \<and>
                       fi_size info \<le> 1024 * 1024 \<and> allowed_extension (p_file p) \<and>
                       read_file E category repo (p_file p) \<noteq> None) \<and>
   (distinct (map fst (fs_files structure)) \<longrightarrow>
      (\<forall>(fl, info) \<in> set (fs_files structure).
         fi_size info > 1024 * 1024 \<or> \<not> allowed_extension fl \<longrightarrow>
         (\<forall>(t, ps) \<in> set (exactTerms (buildSearchIndex E category repo structure))
                       \<union> set (terms (buildSearchIndex E category repo structure)).
            \<forall>p \<in> set ps. p_file p \<noteq> fl))) \<and>
   (\<forall>(fl, info) \<in> set (fs_files structure).
      fi_size info \<le> 1024 * 1024 \<and> allowed_extension fl \<longrightarrow>
      (\<forall>content. read_file E category repo fl = Some content \<and> indexes_cleanly content \<longrightarrow>
         (\<forall>line \<in> set (split_on (CHR ''\<newline>'') content). \<forall>t \<in> set (identifiers line).
            \<not> skipped_term t \<longrightarrow> indexed (buildSearchIndex E category repo structure) t fl)))"
proof -
  let ?R = "\<lambda>(t::string) p. \<exists>info. (p_file p, info) \<in> set (fs_files structure) \<and>
                       fi_size info \<le> 1024 * 1024 \<and> allowed_extension (p_file p) \<and>
                       read_file E category repo (p_file p) \<noteq> None"
  have ex: "all_postings ?R (exactTerms (buildSearchIndex E category repo structure))"
    by (rule buildSearchIndex_exact_postings) (auto simp: token_at_def)
  have tm: "all_postings ?R (terms (buildSearchIndex E category repo structure))"
    by (rule buildSearchIndex_terms_postings) (auto simp: token_at_def)
  have first: "\<forall>(t, ps) \<in> set (exactTerms (buildSearchIndex E category repo structure))
                 \<union> set (terms (buildSearchIndex E category repo structure)).
      \<forall>p \<in> set ps. ?R t p"
    using ex tm unfolding all_postings_def all_lists_def by blast
  have second: "p_file p \<noteq> fl"
    if d: "distinct (map fst (fs_files structure))"
      and fl: "(fl, info) \<in> set (fs_files structure)"
      and bad: "fi_size info > 1024 * 1024 \<or> \<not> allowed_extension fl"
      and ps: "(t, ps) \<in> set (exactTerms (buildSearchIndex E category repo structure))
                 \<union> set (terms (buildSearchIndex E category repo structure))"
      and p: "p \<in> set ps"
    for fl info t ps p
  proof
    assume eq: "p_file p = fl"
    from first ps p obtain info' where info': "(p_file p, info') \<in> set (fs_files structure)"
      "fi_size info' \<le> 1024 * 1024" "allowed_extension (p_file p)"
      by blast
    from d fl info'(1) eq have "info' = info"
      by (metis eq_key_imp_eq_value)
    with info' bad eq show False by simp
  qed
  have third: "indexed (buildSearchIndex E category repo structure) t fl"
    if "(fl, info) \<in> set (fs_files structure)" "fi_size info \<le> 1024 * 1024" "allowed_extension fl"
      "read_file E category repo fl = Some content" "indexes_cleanly content"
      "line \<in> set (split_on (CHR ''\<newline>'') content)" "t \<in> set (identifiers line)"
      "\<not> skipped_term t"
    for fl info content line t
    using that by (rule buildSearchIndex_indexes_file)
  have "\<forall>(fl, info) \<in> set (fs_files structure).
      fi_size info \<le> 1024 * 1024 \<and> allowed_extension fl \<longrightarrow>
      (\<forall>content. read_file E category repo fl = Some content \<and> indexes_cleanly content \<longrightarrow>
         (\<forall>line \<in> set (split_on (CHR ''\<newline>'') content). \<forall>t \<in> set (identifiers line).
            \<not> skipped_term t \<longrightarrow> indexed (buildSearchIndex E category repo structure) t fl))"
    using third by blast
  moreover have "distinct (map fst (fs_files structure)) \<longrightarrow>
      (\<forall>(fl, info) \<in> set (fs_files structure).
         fi_size info > 1024 * 1024 \<or> \<not> allowed_extension fl \<longrightarrow>
         (\<forall>(t, ps) \<in> set (exactTerms (buildSearchIndex E category repo structure))
                       \<union> set (terms (buildSearchIndex E category repo structure)).
            \<forall>p \<in> set ps. p_file p \<noteq> fl))"
    using second by blast
  ultimately show ?thesis
    using first by (intro conjI)
qed

theorem postings_from_indexable_files_witness:
  "distinct (map fst [(''a.ts'', \<lparr>fi_size = 7\<rparr>), (''c.txt'', \<lparr>fi_size = 7\<rparr>)]) \<and>
   (''c.txt'', \<lparr>fi_size = 7\<rparr>) \<in> set [(''a.ts'', \<lparr>fi_size = 7\<rparr>), (''c.txt'', \<lparr>fi_size = 7\<rparr>)] \<and>
   \<not> allowed_extension ''c.txt'' \<and>
   (''foo'', [\<lparr>p_file = ''a.ts'', p_occurrences = 2, p_positions = [1, 1]\<rparr>])
     \<in> set (exactTerms (buildSearchIndex env_mixed ''lib'' ''alpha''
               \<lparr>fs_files = [(''a.ts'', \<lparr>fi_size = 7\<rparr>), (''c.txt'', \<lparr>fi_size = 7\<rparr>)]\<rparr>)) \<and>
   p_file \<lparr>p_file = ''a.ts'', p_occurrences = 2, p_positions = [1, 1]\<rparr> \<noteq> ''c.txt'' \<and>
   (\<exists>info. (''a.ts'', info) \<in> set [(''a.ts'', \<lparr>fi_size = 7\<rparr>), (''c.txt'', \<lparr>fi_size = 7\<rparr>)] \<and>
           fi_size info \<le> 1024 * 1024 \<and> allowed_extension ''a.ts'' \<and>
           read_file env_mixed ''lib'' ''alpha'' ''a.ts'' \<noteq> None) \<and>
   read_file env_mixed ''lib'' ''alpha'' ''a.ts'' = Some ''foo foo'' \<and> indexes_cleanly ''foo foo'' \<and>
   ''foo foo'' \<in> set (split_on (CHR ''\<newline>'') ''foo foo'') \<and> ''foo'' \<in> set (identifiers ''foo foo'') \<and>
   \<not> skipped_term ''foo'' \<and>
   indexed (buildSearchIndex env_mixed ''lib'' ''alpha''
              \<lparr>fs_files = [(''a.ts'', \<lparr>fi_size = 7\<rparr>), (''c.txt'', \<lparr>fi_size = 7\<rparr>)]\<rparr>) ''foo'' ''a.ts''"
proof -
  let ?S = "\<lparr>fs_files = [(''a.ts'', \<lparr>fi_size = 7\<rparr>), (''c.txt'', \<lparr>fi_size = 7\<rparr>)]\<rparr>"
  let ?p = "\<lparr>p_file = ''a.ts'', p_occurrences = 2, p_positions = [1, 1]\<rparr>"
  define ix where "ix = buildSearchIndex env_mixed ''lib'' ''alpha'' ?S"
  have d: "distinct (map fst (fs_files ?S))" by simp
  have c: "(''c.txt'', \<lparr>fi_size = 7\<rparr>) \<in> set (fs_files ?S)" by simp
  have bad: "\<not> allowed_extension ''c.txt''" by (simp add: index_eval)
  have mem: "(''foo'', [?p]) \<in> set (exactTerms ix)"
    unfolding ix_def by (simp add: index_env_mixed)
  then have mem': "(''foo'', [?p]) \<in> set (exactTerms ix) \<union> set (terms ix)" ..
  have p: "?p \<in> set [?p]" by simp
  note inst = postings_from_indexable_files[of env_mixed "''lib''" "''alpha''" ?S, folded ix_def]
  have a: "(''a.ts'', \<lparr>fi_size = 7\<rparr>) \<in> set (fs_files ?S)" by simp
  have ok: "fi_size \<lparr>fi_size = 7\<rparr> \<le> 1024 * 1024 \<and> allowed_extension ''a.ts''"
    by (simp add: index_eval)
  have content: "read_file env_mixed ''lib'' ''alpha'' ''a.ts'' = Some ''foo foo''"
    by (simp add: env_mixed_def example_env_def)
  have lines: "split_on (CHR ''\<newline>'') ''foo foo'' = [''foo foo'']"
    by simp
  have toks: "identifiers ''foo foo'' = [''foo'', ''foo'']"
    by (simp add: index_eval)
  have keep: "\<not> skipped_term ''foo''"
    by (simp add: index_eval)
  have "\<not> throwing_term ''foo''"
    by (simp add: throwing_term_def index_eval)
  then have "\<forall>t \<in> set (identifiers ''foo foo''). \<not> skipped_term t \<longrightarrow> \<not> throwing_term t"
    unfolding toks by simp
  then have "\<forall>line \<in> set [''foo foo'']. \<forall>t \<in> set (identifiers line).
               \<not> skipped_term t \<longrightarrow> \<not> throwing_term t"
    by (simp only: list.set ball_simps simp_thms)
  then have clean: "indexes_cleanly ''foo foo''"
    unfolding indexes_cleanly_def lines .
  from inst have "\<forall>(fl, info) \<in> set (fs_files ?S).
      fi_size info \<le> 1024 * 1024 \<and> allowed_extension fl \<longrightarrow>
      (\<forall>content. read_file env_mixed ''lib'' ''alpha'' fl = Some content \<and> indexes_cleanly content \<longrightarrow>
         (\<forall>line \<in> set (split_on (CHR ''\<newline>'') content). \<forall>t \<in> set (identifiers line).
            \<not> skipped_term t \<longrightarrow> indexed ix t fl))"
    by (rule conjunct2[THEN conjunct2])
  with a ok have "\<forall>content. read_file env_mixed ''lib'' ''alpha'' ''a.ts'' = Some content \<and>
         indexes_cleanly content \<longrightarrow>
         (\<forall>line \<in> set (split_on (CHR ''\<newline>'') content). \<forall>t \<in> set (identifiers line).
            \<not> skipped_term t \<longrightarrow> indexed ix t ''a.ts'')"
    by blast
  with content clean have "\<forall>line \<in> set (split_on (CHR ''\<newline>'') ''foo foo''). \<forall>t \<in> set (identifiers line).
            \<not> skipped_term t \<longrightarrow> indexed ix t ''a.ts''"
    by blast
  then have "\<forall>t \<in> set (identifiers ''foo foo''). \<not> skipped_term t \<longrightarrow> indexed ix t ''a.ts''"
    unfolding lines by (simp only: list.set ball_simps simp_thms)
  with keep have third: "indexed ix ''foo'' ''a.ts''"
    unfolding toks by simp
  have line': "''foo foo'' \<in> set (split_on (CHR ''\<newline>'') ''foo foo'')"
    unfolding lines by simp
  have tok': "''foo'' \<in> set (identifiers ''foo foo'')"
    unfolding toks by simp
  from inst have "\<forall>(t, ps) \<in> set (exactTerms ix) \<union> set (terms ix).
      \<forall>p \<in> set ps. \<exists>info. (p_file p, info) \<in> set (fs_files ?S) \<and>
        fi_size info \<le> 1024 * 1024 \<and> allowed_extension (p_file p) \<and>
        read_file env_mixed ''lib'' ''alpha'' (p_file p) \<noteq> None"
    by (rule conjunct1)
  with mem' p have first: "\<exists>info. (p_file ?p, info) \<in> set (fs_files ?S) \<and>
        fi_size info \<le> 1024 * 1024 \<and> allowed_extension (p_file ?p) \<and>
        read_file env_mixed ''lib'' ''alpha'' (p_file ?p) \<noteq> None"
    by blast
  from inst d have "\<forall>(fl, info) \<in> set (fs_files ?S).
         fi_size info > 1024 * 1024 \<or> \<not> allowed_extension fl \<longrightarrow>
         (\<forall>(t, ps) \<in> set (exactTerms ix) \<union> set (terms ix). \<forall>p \<in> set ps. p_file p \<noteq> fl)"
    by blast
  with c bad have "\<forall>(t, ps) \<in> set (exactTerms ix) \<union> set (terms ix). \<forall>p \<in> set ps. p_file p \<noteq> ''c.txt''"
    by blast
  with mem' p have second: "p_file ?p \<noteq> ''c.txt''"
    by blast
  from first have first': "\<exists>info. (''a.ts'', info) \<in> set [(''a.ts'', \<lparr>fi_size = 7\<rparr>), (''c.txt'', \<lparr>fi_size = 7\<rparr>)] \<and>
           fi_size info \<le> 1024 * 1024 \<and> allowed_extension ''a.ts'' \<and>
           read_file env_mixed ''lib'' ''alpha'' ''a.ts'' \<noteq> None"
    by (simp only: posting.simps FileStructure.simps)
  have d': "distinct (map fst [(''a.ts'', \<lparr>fi_size = 7\<rparr>), (''c.txt'', \<lparr>fi_size = 7\<rparr>)])" by simp
  have c': "(''c.txt'', \<lparr>fi_size = 7\<rparr>) \<in> set [(''a.ts'', \<lparr>fi_size = 7\<rparr>), (''c.txt'', \<lparr>fi_size = 7\<rparr>)]" by simp
  from d' c' bad mem second first' content clean line' tok' keep third show ?thesis
    unfolding ix_def by (intro conjI)
qed


section \<open>C9: occurrences and positions of a posting\<close>

text \<open>
  C9, as stated, says that a token standing twice on one line has its exact-term
  counter raised twice while the line number is recorded once.  On the file \<open>a.ts\<close> with
  the single line \<open>foo foo\<close> the posting of \<open>foo\<close> has \<open>occurrences = 2\<close> and the line
  number twice in \<open>positions\<close>: the update branch pushes the line number at every
  re-encounter.
\<close>

theorem exact_positions_repeat_line:
  "exactTerms (buildSearchIndex env_twice ''lib'' ''alpha'' \<lparr>fs_files = [(''a.ts'', \<lparr>fi_size = 7\<rparr>)]\<rparr>) =
     [(''foo'', [\<lparr>p_file = ''a.ts'', p_occurrences = 2, p_positions = [1, 1]\<rparr>])]"
  by (simp add: index_env_twice)

text \<open>
  C9, amended: for a file of the structure (its names distinct) that is indexed, can be
  read and whose indexing throws no exception, every occurrence of a token raises the
  counter of the token's posting for that file in \<open>exactTerms\<close> and appends its line
  number: \<open>positions\<close> is the list of the line numbers of the occurrences, one entry per
  occurrence in reading order, so a line on which the token stands twice is listed
  twice, and \<open>occurrences\<close> is the length of that list.  It is in \<open>terms\<close> that a line
  number is appended once only: there \<open>occurrences\<close> counts every occurrence of the
  sub-token and \<open>positions\<close> holds each of its lines once.  In every index that
  \<open>buildSearchIndex\<close> returns, a posting of \<open>exactTerms\<close> has \<open>occurrences\<close> equal to the
  length of \<open>positions\<close>, and a posting of \<open>terms\<close> has \<open>positions\<close> without duplicates
  and no longer than \<open>occurrences\<close>.
\<close>

theorem occurrences_and_positions:
  "(\<forall>(t, ps) \<in> set (exactTerms (buildSearchIndex E category repo structure)).
      \<forall>p \<in> set ps. p_occurrences p = length (p_positions p)) \<and>
   (\<forall>(t, ps) \<in> set (terms (buildSearchIndex E category repo structure)).
      \<forall>p \<in> set ps. length (p_positions p) \<le> p_occurrences p \<and> distinct (p_positions p)) \<and>
   (distinct (map fst (fs_files structure)) \<longrightarrow>
      (\<forall>(fl, info) \<in> set (fs_files structure).
         fi_size info \<le> 1024 * 1024 \<and> allowed_extension fl \<longrightarrow>
         (\<forall>content. read_file E category repo fl = Some content \<and> indexes_cleanly content \<longrightarrow>
            (\<forall>t. file_postings fl (exactTerms (buildSearchIndex E category repo structure)) t =
                    posting_of fl (length (token_lines t (indexed_tokens (line_tokens content))))
                      (token_lines t (indexed_tokens (line_tokens content))) \<and>
                  file_postings fl (terms (buildSearchIndex E category repo structure)) t =
                    posting_of fl (length (token_lines t (sub_tokens (indexed_tokens (line_tokens content)))))
                      (first_occurrences
                         (token_lines t (sub_tokens (indexed_tokens (line_tokens content)))))))))"
proof -
  have "all_postings (\<lambda>t p. p_occurrences p = length (p_positions p))
          (exactTerms (buildSearchIndex E category repo structure))"
    by (rule buildSearchIndex_exact_postings) auto
  then have one: "\<forall>(t, ps) \<in> set (exactTerms (buildSearchIndex E category repo structure)).
      \<forall>p \<in> set ps. p_occurrences p = length (p_positions p)"
    by (simp add: all_postings_def all_lists_def)
  have "all_postings (\<lambda>t p. length (p_positions p) \<le> p_occurrences p \<and> distinct (p_positions p))
          (terms (buildSearchIndex E category repo structure))"
    by (rule buildSearchIndex_terms_postings) auto
  then have two: "\<forall>(t, ps) \<in> set (terms (buildSearchIndex E category repo structure)).
      \<forall>p \<in> set ps. length (p_positions p) \<le> p_occurrences p \<and> distinct (p_positions p)"
    by (simp add: all_postings_def all_lists_def)
  have three: "file_postings fl (exactTerms (buildSearchIndex E category repo structure)) t =
                 posting_of fl (length (token_lines t (indexed_tokens (line_tokens content))))
                   (token_lines t (indexed_tokens (line_tokens content))) \<and>
               file_postings fl (terms (buildSearchIndex E category repo structure)) t =
                 posting_of fl (length (token_lines t (sub_tokens (indexed_tokens (line_tokens content)))))
                   (first_occurrences
                      (token_lines t (sub_tokens (indexed_tokens (line_tokens content)))))"
    if "distinct (map fst (fs_files structure))" "(fl, info) \<in> set (fs_files structure)"
      "fi_size info \<le> 1024 * 1024" "allowed_extension fl"
      "read_file E category repo fl = Some content" "indexes_cleanly content"
    for fl info content t
    using buildSearchIndex_file_postings[OF that] by simp
  have "distinct (map fst (fs_files structure)) \<longrightarrow>
      (\<forall>(fl, info) \<in> set (fs_files structure).
         fi_size info \<le> 1024 * 1024 \<and> allowed_extension fl \<longrightarrow>
         (\<forall>content. read_file E category repo fl = Some content \<and> indexes_cleanly content \<longrightarrow>
            (\<forall>t. file_postings fl (exactTerms (buildSearchIndex E category repo structure)) t =
                    posting_of fl (length (token_lines t (indexed_tokens (line_tokens content))))
                      (token_lines t (indexed_tokens (line_tokens content))) \<and>
                  file_postings fl (terms (buildSearchIndex E category repo structure)) t =
                    posting_of fl (length (token_lines t (sub_tokens (indexed_tokens (line_tokens content)))))
                      (first_occurrences
                         (token_lines t (sub_tokens (indexed_tokens (line_tokens content))))))))"
    using three by blast
  with one two show ?thesis
    by (intro conjI)
qed

theorem occurrences_and_positions_witness:
  "distinct (map fst [(''a.ts'', \<lparr>fi_size = 19\<rparr>), (''b.ts'', \<lparr>fi_size = 3\<rparr>)]) \<and>
   (''a.ts'', \<lparr>fi_size = 19\<rparr>) \<in> set [(''a.ts'', \<lparr>fi_size = 19\<rparr>), (''b.ts'', \<lparr>fi_size = 3\<rparr>)] \<and>
   fi_size \<lparr>fi_size = 19\<rparr> \<le> 1024 * 1024 \<and> allowed_extension ''a.ts'' \<and>
   read_file env_lines ''lib'' ''alpha'' ''a.ts'' = Some ''foo foo\<newline>bar\<newline>foo foo'' \<and>
   indexes_cleanly ''foo foo\<newline>bar\<newline>foo foo'' \<and>
   file_postings ''a.ts''
     (exactTerms (buildSearchIndex env_lines ''lib'' ''alpha''
        \<lparr>fs_files = [(''a.ts'', \<lparr>fi_size = 19\<rparr>), (''b.ts'', \<lparr>fi_size = 3\<rparr>)]\<rparr>)) ''foo'' =
     [\<lparr>p_file = ''a.ts'', p_occurrences = 4, p_positions = [1, 1, 3, 3]\<rparr>] \<and>
   file_postings ''a.ts''
     (terms (buildSearchIndex env_lines ''lib'' ''alpha''
        \<lparr>fs_files = [(''a.ts'', \<lparr>fi_size = 19\<rparr>), (''b.ts'', \<lparr>fi_size = 3\<rparr>)]\<rparr>)) ''foo'' =
     [\<lparr>p_file = ''a.ts'', p_occurrences = 8, p_positions = [1, 3]\<rparr>]"
proof -
  let ?S = "\<lparr>fs_files = [(''a.ts'', \<lparr>fi_size = 19\<rparr>), (''b.ts'', \<lparr>fi_size = 3\<rparr>)]\<rparr>"
  let ?c = "''foo foo\<newline>bar\<newline>foo foo''"
  define ix where "ix = buildSearchIndex env_lines ''lib'' ''alpha'' ?S"
  have d: "distinct (map fst (fs_files ?S))" by simp
  have a: "(''a.ts'', \<lparr>fi_size = 19\<rparr>) \<in> set (fs_files ?S)" by simp
  have ok: "fi_size \<lparr>fi_size = 19\<rparr> \<le> 1024 * 1024 \<and> allowed_extension ''a.ts''"
    by (simp add: index_eval)
  have content: "read_file env_lines ''lib'' ''alpha'' ''a.ts'' = Some ?c"
    by (simp add: env_lines_def example_env_def)
  have toks: "line_tokens ?c = [(1, ''foo''), (1, ''foo''), (2, ''bar''), (3, ''foo''), (3, ''foo'')]"
    by (simp add: line_tokens_def index_eval)
  have kept: "indexed_tokens (line_tokens ?c) =
                [(1, ''foo''), (1, ''foo''), (2, ''bar''), (3, ''foo''), (3, ''foo'')]"
    unfolding toks by (simp add: indexed_tokens_def index_eval)
  have subs: "sub_tokens (indexed_tokens (line_tokens ?c)) =
                [(1, ''foo''), (1, ''foo''), (1, ''foo''), (1, ''foo''), (2, ''bar''), (2, ''bar''),
                 (3, ''foo''), (3, ''foo''), (3, ''foo''), (3, ''foo'')]"
    unfolding kept by (simp add: sub_tokens_def index_eval)
  have "\<forall>lt \<in> set (line_tokens ?c). \<not> skipped_term (snd lt) \<longrightarrow> \<not> throwing_term (snd lt)"
    unfolding toks by (simp add: throwing_term_def index_eval)
  then have clean: "indexes_cleanly ?c"
    by (rule indexes_cleanly_tokens)
  note inst = occurrences_and_positions[of env_lines "''lib''" "''alpha''" ?S, folded ix_def]
  from inst d have "\<forall>(fl, info) \<in> set (fs_files ?S).
         fi_size info \<le> 1024 * 1024 \<and> allowed_extension fl \<longrightarrow>
         (\<forall>content. read_file env_lines ''lib'' ''alpha'' fl = Some content \<and> indexes_cleanly content \<longrightarrow>
            (\<forall>t. file_postings fl (exactTerms ix) t =
                    posting_of fl (length (token_lines t (indexed_tokens (line_tokens content))))
                      (token_lines t (indexed_tokens (line_tokens content))) \<and>
                  file_postings fl (terms ix) t =
                    posting_of fl (length (token_lines t (sub_tokens (indexed_tokens (line_tokens content)))))
                      (first_occurrences
                         (token_lines t (sub_tokens (indexed_tokens (line_tokens content)))))))"
    by blast
  with a ok content clean have both:
    "file_postings ''a.ts'' (exactTerms ix) ''foo'' =
       posting_of ''a.ts'' (length (token_lines ''foo'' (indexed_tokens (line_tokens ?c))))
         (token_lines ''foo'' (indexed_tokens (line_tokens ?c))) \<and>
     file_postings ''a.ts'' (terms ix) ''foo'' =
       posting_of ''a.ts'' (length (token_lines ''foo'' (sub_tokens (indexed_tokens (line_tokens ?c)))))
         (first_occurrences (token_lines ''foo'' (sub_tokens (indexed_tokens (line_tokens ?c)))))"
    by blast
  have exact: "file_postings ''a.ts'' (exactTerms ix) ''foo'' =
                 [\<lparr>p_file = ''a.ts'', p_occurrences = 4, p_positions = [1, 1, 3, 3]\<rparr>]"
    using both unfolding kept by (simp add: token_lines_def posting_of_def)
  have sub: "file_postings ''a.ts'' (terms ix) ''foo'' =
                 [\<lparr>p_file = ''a.ts'', p_occurrences = 8, p_positions = [1, 3]\<rparr>]"
    using both unfolding subs by (simp add: token_lines_def posting_of_def first_occurrences_def)
  have d': "distinct (map fst [(''a.ts'', \<lparr>fi_size = 19\<rparr>), (''b.ts'', \<lparr>fi_size = 3\<rparr>)])" by simp
  have a': "(''a.ts'', \<lparr>fi_size = 19\<rparr>) \<in> set [(''a.ts'', \<lparr>fi_size = 19\<rparr>), (''b.ts'', \<lparr>fi_size = 3\<rparr>)]" by simp
  from ok have ok1: "fi_size \<lparr>fi_size = 19\<rparr> \<le> 1024 * 1024" and ok2: "allowed_extension ''a.ts''"
    by blast+
  from d' a' ok1 ok2 content clean exact sub show ?thesis
    unfolding ix_def by (intro conjI)
qed


section \<open>C10: a file has at most one posting per token\<close>

text \<open>
  C10: in the index that \<open>buildSearchIndex\<close> returns, no postings list of \<open>exactTerms\<close>
  and none of \<open>terms\<close> names a file twice.  The files of the structure are the keys
  of an object, hence distinct.
\<close>

theorem posting_files_distinct:
  assumes "distinct (map fst (fs_files structure))"
  shows "(\<forall>(t, ps) \<in> set (exactTerms (buildSearchIndex E category repo structure)).
            distinct (map p_file ps)) \<and>
         (\<forall>(t, ps) \<in> set (terms (buildSearchIndex E category repo structure)).
            distinct (map p_file ps))"
  using exact_files_distinct[OF assms, of E category repo]
    terms_files_distinct[of E category repo "structure"]
  by (simp add: all_lists_def)

theorem posting_files_distinct_witness:
  "distinct (map fst [(''a.ts'', \<lparr>fi_size = 7\<rparr>), (''b.ts'', \<lparr>fi_size = 3\<rparr>)]) \<and>
   (''foo'', [\<lparr>p_file = ''a.ts'', p_occurrences = 2, p_positions = [1, 1]\<rparr>,
              \<lparr>p_file = ''b.ts'', p_occurrences = 1, p_positions = [1]\<rparr>])
     \<in> set (exactTerms (buildSearchIndex env_two ''lib'' ''alpha''
               \<lparr>fs_files = [(''a.ts'', \<lparr>fi_size = 7\<rparr>), (''b.ts'', \<lparr>fi_size = 3\<rparr>)]\<rparr>)) \<and>
   distinct (map p_file [\<lparr>p_file = ''a.ts'', p_occurrences = 2, p_positions = [1, 1]\<rparr>,
                         \<lparr>p_file = ''b.ts'', p_occurrences = 1, p_positions = [1]\<rparr>])"
proof -
  let ?S = "\<lparr>fs_files = [(''a.ts'', \<lparr>fi_size = 7\<rparr>), (''b.ts'', \<lparr>fi_size = 3\<rparr>)]\<rparr>"
  let ?ps = "[\<lparr>p_file = ''a.ts'', p_occurrences = 2, p_positions = [1, 1]\<rparr>,
              \<lparr>p_file = ''b.ts'', p_occurrences = 1, p_positions = [1]\<rparr>]"
  have d: "distinct (map fst (fs_files ?S))" by simp
  have mem: "(''foo'', ?ps) \<in> set (exactTerms (buildSearchIndex env_two ''lib'' ''alpha'' ?S))"
    by (simp add: index_env_two)
  from posting_files_distinct[OF d, of env_two "''lib''" "''alpha''"] mem
  have "distinct (map p_file ?ps)"
    by blast
  with d mem show ?thesis by simp
qed


end
